theory Spec2Isabelle
  imports Complex_Main "HOL-Library.Word" "HOL-Library.Sublist"
begin

section \<open>The decimation kernels of decimate.cu\<close>

text \<open>
  A \<open>cuComplex\<close> is a pair of floats with \<open>cuCaddf\<close> and \<open>cuCmulf\<close> as complex addition and
  multiplication. The model takes the values in the complex numbers, so rounding is left out.
  Sample and output indices are \<open>uint32_t\<close> in the source and 32-bit words here. Thread and
  block coordinates are natural numbers (a block has at most 1024 threads, so the arithmetic
  on \<open>threadIdx\<close> and \<open>blockDim\<close> alone cannot wrap) and are converted where the source mixes
  them with \<open>uint32_t\<close> values. A coordinate pair is \<open>(x, y)\<close>; the \<open>z\<close> dimension is always 1.
\<close>

type_synonym u32 = "32 word"
type_synonym cuComplex = complex

record dim3 =
  dim_x :: nat
  dim_y :: nat
  dim_z :: nat

definition warpSize :: nat where
  "warpSize = 32"

text \<open>\<open>create_grid\<close> divides by \<open>dm_rate\<close>; a zero rate is a division by zero (\<open>None\<close>).\<close>

definition create_grid :: "u32 \<Rightarrow> u32 \<Rightarrow> u32 \<Rightarrow> dim3 option" where
  "create_grid num_samples dm_rate num_antennas =
     (if dm_rate = 0 then None
      else let num_blocks_x = num_samples div dm_rate;
               num_blocks_y = num_antennas;
               num_blocks_z = 1
           in Some \<lparr>dim_x = unat num_blocks_x, dim_y = unat num_blocks_y, dim_z = num_blocks_z\<rparr>)"

definition create_block :: "u32 \<Rightarrow> u32 \<Rightarrow> dim3" where
  "create_block num_taps_per_filter num_freqs =
     (let num_threads_x = num_taps_per_filter;
          num_threads_y = num_freqs;
          num_threads_z = 1
      in \<lparr>dim_x = unat num_threads_x, dim_y = unat num_threads_y, dim_z = num_threads_z\<rparr>)"

text \<open>The threads of a block (and the blocks of a grid), in the order of their linear index.\<close>

definition threads :: "dim3 \<Rightarrow> (nat \<times> nat) list" where
  "threads d = concat (map (\<lambda>j. map (\<lambda>i. (i, j)) [0..<dim_x d]) [0..<dim_y d])"

subsection \<open>Loading the samples\<close>

text \<open>
  The first component is the value of \<open>sample\<close>; the second lists the indices at which the
  thread reads \<open>original_samples\<close>. \<open>b\<close> is \<open>blockIdx\<close> and \<open>t\<close> is \<open>threadIdx\<close>.
\<close>

definition load_sample ::
  "(nat \<Rightarrow> cuComplex) \<Rightarrow> u32 \<Rightarrow> u32 \<Rightarrow> nat \<times> nat \<Rightarrow> nat \<times> nat \<Rightarrow> cuComplex \<times> u32 list" where
  "load_sample original_samples dm_rate samples_per_antenna b t =
     (let antenna_num = (of_nat (snd b) :: u32);
          antenna_offset = antenna_num * samples_per_antenna;
          dec_sample_num = (of_nat (fst b) :: u32);
          dec_sample_offset = dec_sample_num * dm_rate
      in if dec_sample_offset + of_nat (fst t) \<ge> samples_per_antenna then (0, [])
         else let final_offset = antenna_offset + dec_sample_offset + of_nat (fst t)
              in (original_samples (unat final_offset), [final_offset]))"

text \<open>The large variant: \<open>(sample_1, sample_2)\<close> and the indices read.\<close>

definition load_two_samples ::
  "(nat \<Rightarrow> cuComplex) \<Rightarrow> u32 \<Rightarrow> u32 \<Rightarrow> nat \<times> nat \<Rightarrow> nat \<times> nat
     \<Rightarrow> (cuComplex \<times> cuComplex) \<times> u32 list" where
  "load_two_samples original_samples dm_rate samples_per_antenna b t =
     (let antenna_num = (of_nat (snd b) :: u32);
          antenna_offset = antenna_num * samples_per_antenna;
          dec_sample_num = (of_nat (fst b) :: u32);
          dec_sample_offset = dec_sample_num * dm_rate
      in if dec_sample_offset + 2 * of_nat (fst t) \<ge> samples_per_antenna then ((0, 0), [])
         else if dec_sample_offset + 2 * of_nat (fst t) \<ge> samples_per_antenna - 1 then
           let final_offset = antenna_offset + dec_sample_offset + 2 * of_nat (fst t)
           in ((original_samples (unat final_offset), 0), [final_offset])
         else
           let final_offset = antenna_offset + dec_sample_offset + 2 * of_nat (fst t)
           in ((original_samples (unat final_offset), original_samples (unat (final_offset + 1))),
               [final_offset, final_offset + 1]))"

subsection \<open>The parallel reduction\<close>

text \<open>
  The state of a block between two barriers: the shared array \<open>data\<close> and every thread's
  register \<open>total_sum\<close>. Between two \<open>__syncthreads()\<close> the threads of the block run one after
  the other in the order of their linear index, which is one of the schedules the hardware
  may choose and the only outcome when no thread touches a cell another thread writes.
\<close>

record block_state =
  data :: "nat \<Rightarrow> cuComplex"
  total_sum :: "nat \<times> nat \<Rightarrow> cuComplex"

definition reduce_init :: "(nat \<times> nat \<Rightarrow> nat) \<Rightarrow> nat \<times> nat \<Rightarrow> block_state \<Rightarrow> block_state" where
  "reduce_init tap_offset t s = s\<lparr>total_sum := (total_sum s)(t := data s (tap_offset t))\<rparr>"

text \<open>One halving step: \<open>if ((num_filter_taps >= 2 * h) && (filter_tap_num < h)) ...\<close>.\<close>

definition reduce_step ::
  "nat \<Rightarrow> dim3 \<Rightarrow> (nat \<times> nat \<Rightarrow> nat) \<Rightarrow> nat \<times> nat \<Rightarrow> block_state \<Rightarrow> block_state" where
  "reduce_step h blockDim tap_offset t s =
     (let filter_tap_num = fst t;
          num_filter_taps = dim_x blockDim
      in if num_filter_taps \<ge> 2 * h \<and> filter_tap_num < h then
           let total = total_sum s t + data s (tap_offset t + h)
           in s\<lparr>total_sum := (total_sum s)(t := total),
                data := (data s)(tap_offset t := total)\<rparr>
         else s)"

text \<open>The fetch from the second warp: \<open>if (num_filter_taps >= 64) total_sum += data[tap_offset + 32]\<close>,
  inside \<open>if (filter_tap_num < 32)\<close>.\<close>

definition reduce_fetch ::
  "dim3 \<Rightarrow> (nat \<times> nat \<Rightarrow> nat) \<Rightarrow> nat \<times> nat \<Rightarrow> block_state \<Rightarrow> block_state" where
  "reduce_fetch blockDim tap_offset t s =
     (let filter_tap_num = fst t;
          num_filter_taps = dim_x blockDim
      in if filter_tap_num < 32 \<and> num_filter_taps \<ge> 64 then
           s\<lparr>total_sum := (total_sum s)(t := total_sum s t + data s (tap_offset t + 32))\<rparr>
         else s)"

text \<open>
  The warp shuffle. A warp is 32 threads of consecutive linear index
  \<open>threadIdx.y * blockDim.x + threadIdx.x\<close>; the lane of a thread is its linear index modulo 32.
  \<open>__shfl_down(var, delta, 32)\<close> returns the value of \<open>var\<close> held by lane \<open>lane + delta\<close> of the
  caller's warp, the caller's own value when \<open>lane + delta\<close> is 32 or more, and an undefined
  value (\<open>None\<close>) when the source lane does not take part in the shuffle: it lies past the
  last thread of the block, or its thread is outside \<open>if (filter_tap_num < 32)\<close>.
\<close>

definition linear_id :: "dim3 \<Rightarrow> nat \<times> nat \<Rightarrow> nat" where
  "linear_id blockDim t = snd t * dim_x blockDim + fst t"

definition thread_of :: "dim3 \<Rightarrow> nat \<Rightarrow> nat \<times> nat" where
  "thread_of blockDim l = (l mod dim_x blockDim, l div dim_x blockDim)"

definition shfl_active :: "dim3 \<Rightarrow> nat \<Rightarrow> bool" where
  "shfl_active blockDim l \<longleftrightarrow> l < dim_x blockDim * dim_y blockDim \<and> fst (thread_of blockDim l) < 32"

definition shfl_down_float ::
  "dim3 \<Rightarrow> (nat \<times> nat \<Rightarrow> real option) \<Rightarrow> nat \<times> nat \<Rightarrow> nat \<Rightarrow> real option" where
  "shfl_down_float blockDim var t delta =
     (let l = linear_id blockDim t;
          lane = l mod warpSize
      in if lane + delta < warpSize then
           (if shfl_active blockDim (l + delta) then var (thread_of blockDim (l + delta)) else None)
         else var t)"

text \<open>The overload for \<open>cuComplex\<close>: the two float halves are shuffled one after the other.\<close>

definition shfl_down ::
  "dim3 \<Rightarrow> (nat \<times> nat \<Rightarrow> cuComplex option) \<Rightarrow> nat \<times> nat \<Rightarrow> nat \<Rightarrow> cuComplex option" where
  "shfl_down blockDim var t srcLane =
     (let a_x = shfl_down_float blockDim (\<lambda>u. map_option Re (var u)) t srcLane;
          a_y = shfl_down_float blockDim (\<lambda>u. map_option Im (var u)) t srcLane
      in case (a_x, a_y) of
           (Some x', Some y') \<Rightarrow> Some (Complex x' y')
         | _ \<Rightarrow> None)"

definition cuCaddf_opt :: "cuComplex option \<Rightarrow> cuComplex option \<Rightarrow> cuComplex option" where
  "cuCaddf_opt a b = (case (a, b) of (Some u, Some v) \<Rightarrow> Some (u + v) | _ \<Rightarrow> None)"

text \<open>One iteration of the shuffle loop, executed by the threads with \<open>filter_tap_num < 32\<close>
  of every warp in lock step.\<close>

definition shuffle_step ::
  "dim3 \<Rightarrow> nat \<Rightarrow> (nat \<times> nat \<Rightarrow> cuComplex option) \<Rightarrow> nat \<times> nat \<Rightarrow> cuComplex option" where
  "shuffle_step blockDim offset regs =
     (\<lambda>t. if fst t < 32 then cuCaddf_opt (regs t) (shfl_down blockDim regs t offset) else regs t)"

text \<open>\<open>for (int offset = warpSize/2; offset > 0; offset /= 2)\<close>\<close>

function shuffle_loop ::
  "dim3 \<Rightarrow> nat \<Rightarrow> (nat \<times> nat \<Rightarrow> cuComplex option) \<Rightarrow> nat \<times> nat \<Rightarrow> cuComplex option" where
  "shuffle_loop blockDim offset regs =
     (if offset > 0 then shuffle_loop blockDim (offset div 2) (shuffle_step blockDim offset regs)
      else regs)"
  by pat_completeness auto
termination
  by (relation "measure (\<lambda>(d, offset, r). offset)") auto

text \<open>
  \<open>parallel_reduce\<close> for all threads of a block: the value each thread returns, \<open>None\<close> when it
  is undefined. \<open>tap_offset\<close> is the argument each thread passes.
\<close>

definition parallel_reduce ::
  "dim3 \<Rightarrow> (nat \<times> nat \<Rightarrow> nat) \<Rightarrow> (nat \<Rightarrow> cuComplex) \<Rightarrow> nat \<times> nat \<Rightarrow> cuComplex option" where
  "parallel_reduce blockDim tap_offset data0 =
     (let ts = threads blockDim;
          s0 = \<lparr>data = data0, total_sum = (\<lambda>t. 0)\<rparr>;
          s1 = fold (\<lambda>t s. reduce_step 512 blockDim tap_offset t (reduce_init tap_offset t s)) ts s0;
          s2 = fold (reduce_step 256 blockDim tap_offset) ts s1;
          s3 = fold (reduce_step 128 blockDim tap_offset) ts s2;
          s4 = fold (reduce_step 64 blockDim tap_offset) ts s3;
          s5 = fold (reduce_fetch blockDim tap_offset) ts s4
      in shuffle_loop blockDim (warpSize div 2) (\<lambda>t. Some (total_sum s5 t)))"

subsection \<open>The two kernels\<close>

definition tap_offset1024 :: "dim3 \<Rightarrow> nat \<times> nat \<Rightarrow> nat" where
  "tap_offset1024 blockDim t = snd t * dim_x blockDim + fst t"

definition tap_offset2048 :: "dim3 \<Rightarrow> nat \<times> nat \<Rightarrow> nat" where
  "tap_offset2048 blockDim t = snd t * dim_x blockDim + 2 * fst t"

text \<open>The part of \<open>decimate1024\<close> before the first barrier, for one thread.\<close>

definition store_product ::
  "(nat \<Rightarrow> cuComplex) \<Rightarrow> (nat \<Rightarrow> cuComplex) \<Rightarrow> u32 \<Rightarrow> u32 \<Rightarrow> dim3 \<Rightarrow> nat \<times> nat \<Rightarrow> nat \<times> nat
     \<Rightarrow> (nat \<Rightarrow> cuComplex) \<Rightarrow> (nat \<Rightarrow> cuComplex)" where
  "store_product original_samples filter_taps dm_rate samples_per_antenna blockDim b t filter_products =
     (let tap_offset = tap_offset1024 blockDim t;
          sample = fst (load_sample original_samples dm_rate samples_per_antenna b t)
      in filter_products(tap_offset := sample * filter_taps tap_offset))"

text \<open>The part of \<open>decimate2048\<close> before the first barrier, for one thread.\<close>

definition store_two_products ::
  "(nat \<Rightarrow> cuComplex) \<Rightarrow> (nat \<Rightarrow> cuComplex) \<Rightarrow> u32 \<Rightarrow> u32 \<Rightarrow> dim3 \<Rightarrow> nat \<times> nat \<Rightarrow> nat \<times> nat
     \<Rightarrow> (nat \<Rightarrow> cuComplex) \<Rightarrow> (nat \<Rightarrow> cuComplex)" where
  "store_two_products original_samples filter_taps dm_rate samples_per_antenna blockDim b t filter_products =
     (let tap_offset = tap_offset2048 blockDim t;
          (sample_1, sample_2) = fst (load_two_samples original_samples dm_rate samples_per_antenna b t);
          fp1 = filter_products(tap_offset := sample_1 * filter_taps tap_offset);
          fp2 = fp1(tap_offset + 1 := sample_2 * filter_taps (tap_offset + 1))
      in fp2(tap_offset := fp2 tap_offset + fp2 (tap_offset + 1)))"

text \<open>
  The write of the result, \<open>if (threadIdx.x == 0)\<close>. A cell of \<open>decimated_samples\<close> holds \<open>None\<close>
  while its value is undefined.
\<close>

definition write_output ::
  "u32 \<Rightarrow> u32 \<Rightarrow> dim3 \<Rightarrow> nat \<times> nat \<Rightarrow> (nat \<times> nat \<Rightarrow> cuComplex option) \<Rightarrow> nat \<times> nat
     \<Rightarrow> (nat \<Rightarrow> cuComplex option) \<Rightarrow> (nat \<Rightarrow> cuComplex option)" where
  "write_output dm_rate samples_per_antenna gridDim b calculated_output_sample t decimated_samples =
     (if fst t = 0 then
        let antenna_num = (of_nat (snd b) :: u32);
            dec_sample_num = (of_nat (fst b) :: u32);
            antenna_offset = antenna_num * samples_per_antenna div dm_rate;
            total_antennas = (of_nat (dim_y gridDim) :: u32);
            freq_offset = of_nat (snd t) * of_nat (dim_x gridDim) * total_antennas;
            total_offset = freq_offset + antenna_offset + dec_sample_num
        in decimated_samples(unat total_offset := calculated_output_sample t)
      else decimated_samples)"

text \<open>One block of each kernel. \<open>shared0\<close> is the content of the shared array when the block
  starts.\<close>

definition decimate1024_block ::
  "(nat \<Rightarrow> cuComplex) \<Rightarrow> (nat \<Rightarrow> cuComplex) \<Rightarrow> u32 \<Rightarrow> u32 \<Rightarrow> dim3 \<Rightarrow> dim3
     \<Rightarrow> (nat \<times> nat \<Rightarrow> nat \<Rightarrow> cuComplex) \<Rightarrow> nat \<times> nat
     \<Rightarrow> (nat \<Rightarrow> cuComplex option) \<Rightarrow> (nat \<Rightarrow> cuComplex option)" where
  "decimate1024_block original_samples filter_taps dm_rate samples_per_antenna gridDim blockDim shared0 b
       decimated_samples =
     (let filter_products =
            fold (store_product original_samples filter_taps dm_rate samples_per_antenna blockDim b)
              (threads blockDim) (shared0 b);
          calculated_output_sample = parallel_reduce blockDim (tap_offset1024 blockDim) filter_products
      in fold (write_output dm_rate samples_per_antenna gridDim b calculated_output_sample)
           (threads blockDim) decimated_samples)"

definition decimate2048_block ::
  "(nat \<Rightarrow> cuComplex) \<Rightarrow> (nat \<Rightarrow> cuComplex) \<Rightarrow> u32 \<Rightarrow> u32 \<Rightarrow> dim3 \<Rightarrow> dim3
     \<Rightarrow> (nat \<times> nat \<Rightarrow> nat \<Rightarrow> cuComplex) \<Rightarrow> nat \<times> nat
     \<Rightarrow> (nat \<Rightarrow> cuComplex option) \<Rightarrow> (nat \<Rightarrow> cuComplex option)" where
  "decimate2048_block original_samples filter_taps dm_rate samples_per_antenna gridDim blockDim shared0 b
       decimated_samples =
     (let filter_products =
            fold (store_two_products original_samples filter_taps dm_rate samples_per_antenna blockDim b)
              (threads blockDim) (shared0 b);
          calculated_output_sample = parallel_reduce blockDim (tap_offset2048 blockDim) filter_products
      in fold (write_output dm_rate samples_per_antenna gridDim b calculated_output_sample)
           (threads blockDim) decimated_samples)"

text \<open>The kernels over the whole grid.\<close>

definition decimate1024 ::
  "dim3 \<Rightarrow> dim3 \<Rightarrow> (nat \<times> nat \<Rightarrow> nat \<Rightarrow> cuComplex) \<Rightarrow> (nat \<Rightarrow> cuComplex)
     \<Rightarrow> (nat \<Rightarrow> cuComplex option) \<Rightarrow> (nat \<Rightarrow> cuComplex) \<Rightarrow> u32 \<Rightarrow> u32 \<Rightarrow> (nat \<Rightarrow> cuComplex option)" where
  "decimate1024 gridDim blockDim shared0 original_samples decimated_samples filter_taps dm_rate
       samples_per_antenna =
     fold (decimate1024_block original_samples filter_taps dm_rate samples_per_antenna gridDim blockDim shared0)
       (threads gridDim) decimated_samples"

definition decimate2048 ::
  "dim3 \<Rightarrow> dim3 \<Rightarrow> (nat \<times> nat \<Rightarrow> nat \<Rightarrow> cuComplex) \<Rightarrow> (nat \<Rightarrow> cuComplex)
     \<Rightarrow> (nat \<Rightarrow> cuComplex option) \<Rightarrow> (nat \<Rightarrow> cuComplex) \<Rightarrow> u32 \<Rightarrow> u32 \<Rightarrow> (nat \<Rightarrow> cuComplex option)" where
  "decimate2048 gridDim blockDim shared0 original_samples decimated_samples filter_taps dm_rate
       samples_per_antenna =
     fold (decimate2048_block original_samples filter_taps dm_rate samples_per_antenna gridDim blockDim shared0)
       (threads gridDim) decimated_samples"

text \<open>
  A kernel launch \<open>kernel<<<dimGrid, dimBlock, shr_mem_taps, stream>>>(...)\<close> with its arguments;
  the three pointers are device addresses. The wrappers build the launch; \<open>run_kernel\<close> is what
  the launched kernel does to the output buffer, given the contents of the three buffers.
\<close>

datatype kernel_name = Decimate1024 | Decimate2048

record launch =
  launch_kernel :: kernel_name
  launch_grid :: dim3
  launch_block :: dim3
  launch_shared_bytes :: nat
  arg_original_samples :: nat
  arg_decimated_samples :: nat
  arg_filter_taps :: nat
  arg_dm_rate :: u32
  arg_samples_per_antenna :: u32

definition sizeof_cuComplex :: nat where
  "sizeof_cuComplex = 8"

definition decimate1024_wrapper ::
  "nat \<Rightarrow> nat \<Rightarrow> nat \<Rightarrow> u32 \<Rightarrow> u32 \<Rightarrow> u32 \<Rightarrow> u32 \<Rightarrow> u32 \<Rightarrow> launch option" where
  "decimate1024_wrapper original_samples decimated_samples filter_taps dm_rate samples_per_antenna
       num_taps_per_filter num_freqs num_antennas =
     (let shr_mem_taps = unat (num_freqs * num_taps_per_filter) * sizeof_cuComplex
      in case create_grid samples_per_antenna dm_rate num_antennas of
           None \<Rightarrow> None
         | Some dimGrid \<Rightarrow>
             let dimBlock = create_block num_taps_per_filter num_freqs
             in Some \<lparr>launch_kernel = Decimate1024, launch_grid = dimGrid, launch_block = dimBlock,
                      launch_shared_bytes = shr_mem_taps, arg_original_samples = original_samples,
                      arg_decimated_samples = decimated_samples, arg_filter_taps = filter_taps,
                      arg_dm_rate = dm_rate, arg_samples_per_antenna = samples_per_antenna\<rparr>)"

definition decimate2048_wrapper ::
  "nat \<Rightarrow> nat \<Rightarrow> nat \<Rightarrow> u32 \<Rightarrow> u32 \<Rightarrow> u32 \<Rightarrow> u32 \<Rightarrow> u32 \<Rightarrow> launch option" where
  "decimate2048_wrapper original_samples decimated_samples filter_taps dm_rate samples_per_antenna
       num_taps_per_filter num_freqs num_antennas =
     (let shr_mem_taps = unat (num_freqs * num_taps_per_filter) * sizeof_cuComplex
      in case create_grid samples_per_antenna dm_rate num_antennas of
           None \<Rightarrow> None
         | Some dimGrid \<Rightarrow>
             let dimBlock = create_block (num_taps_per_filter div 2) num_freqs
             in Some \<lparr>launch_kernel = Decimate2048, launch_grid = dimGrid, launch_block = dimBlock,
                      launch_shared_bytes = shr_mem_taps, arg_original_samples = original_samples,
                      arg_decimated_samples = decimated_samples, arg_filter_taps = filter_taps,
                      arg_dm_rate = dm_rate, arg_samples_per_antenna = samples_per_antenna\<rparr>)"

definition run_kernel ::
  "launch \<Rightarrow> (nat \<times> nat \<Rightarrow> nat \<Rightarrow> cuComplex) \<Rightarrow> (nat \<Rightarrow> cuComplex) \<Rightarrow> (nat \<Rightarrow> cuComplex option)
     \<Rightarrow> (nat \<Rightarrow> cuComplex) \<Rightarrow> (nat \<Rightarrow> cuComplex option)" where
  "run_kernel l shared0 original_samples decimated_samples filter_taps =
     (case launch_kernel l of
        Decimate1024 \<Rightarrow>
          decimate1024 (launch_grid l) (launch_block l) shared0 original_samples decimated_samples
            filter_taps (arg_dm_rate l) (arg_samples_per_antenna l)
      | Decimate2048 \<Rightarrow>
          decimate2048 (launch_grid l) (launch_block l) shared0 original_samples decimated_samples
            filter_taps (arg_dm_rate l) (arg_samples_per_antenna l))"

text \<open>The index \<open>total_offset\<close> at which thread \<open>t\<close> of block \<open>b\<close> writes its result, as
  \<open>write_output\<close> computes it.\<close>

definition output_index :: "u32 \<Rightarrow> u32 \<Rightarrow> dim3 \<Rightarrow> nat \<times> nat \<Rightarrow> nat \<times> nat \<Rightarrow> nat" where
  "output_index dm_rate samples_per_antenna gridDim b t =
     unat (of_nat (snd t) * of_nat (dim_x gridDim) * of_nat (dim_y gridDim)
           + of_nat (snd b) * samples_per_antenna div dm_rate + (of_nat (fst b) :: u32))"


section \<open>The host side: DSPCore (dsp.cu)\<close>

subsection \<open>Results and failures\<close>

datatype cudaError =
    cudaSuccess
  | cudaErrorMemoryAllocation
  | cudaErrorInvalidValue
  | cudaErrorInvalidResourceHandle
  | cudaErrorInvalidConfiguration

text \<open>
  What stops a host function. \<open>Fatal\<close> is \<open>gpuErrchk\<close> on an error code. \<open>DanglingPointer\<close> is
  the use or the deletion of an object that was deleted before, \<open>IndexOutOfRange\<close> is
  \<open>gpu_properties[0]\<close> on an empty vector, \<open>DivisionByZero\<close> is \<open>create_grid\<close> with a zero rate:
  undefined behaviour in C++. \<open>SegmentMissing\<close> is the exception of opening a shared-memory
  region that does not exist. \<open>WouldBlock\<close> is a wait for an event behind a host callback
  that has not run, where this sequential model cannot go on.
\<close>

datatype failure =
    Fatal cudaError
  | DanglingPointer
  | IndexOutOfRange
  | DivisionByZero
  | SegmentMissing
  | WouldBlock

definition and_then :: "failure + 'a \<Rightarrow> ('a \<Rightarrow> failure + 'b) \<Rightarrow> failure + 'b" where
  "and_then r f = (case r of Inl e \<Rightarrow> Inl e | Inr a \<Rightarrow> f a)"

text \<open>
  Modelled from the spec: \<open>gpuErrchk\<close> is a macro of dsp.hpp, which is not among the sources.
  The spec makes an error of any checked CUDA call fatal to the process.
\<close>

definition gpuErrchk :: "cudaError \<Rightarrow> failure + unit" where
  "gpuErrchk code = (if code = cudaSuccess then Inr () else Inl (Fatal code))"

definition checked :: "cudaError \<times> 'a \<Rightarrow> failure + 'a" where
  "checked r = and_then (gpuErrchk (fst r)) (\<lambda>u. Inr (snd r))"

subsection \<open>The state of the process\<close>

text \<open>
  Modelled from the spec: \<open>SigProcPacket\<close> is generated from a protobuf schema that is not among
  the sources; the spec gives the ack message a sequence number and the timing message a
  sequence number and a kernel time. A field that was never set is \<open>None\<close>.
\<close>

record SigProcPacket =
  kerneltime :: "real option"
  sequence_num :: "u32 option"

record cudaDeviceProp =
  maxThreadsPerBlock :: int
  sharedMemPerBlock :: nat

datatype callback = Initial_memcpy_callback | Cuda_postprocessing_callback

text \<open>The work queued on a stream; a callback carries its \<open>processing_data\<close> pointer.\<close>

datatype stream_op =
    OpMemcpy nat nat nat
  | OpKernel launch
  | OpRecord nat
  | OpCallback callback nat

text \<open>What the process does that can be seen from outside, in the order in which it happens.\<close>

datatype action =
    Sent nat SigProcPacket
  | Copied nat nat nat
  | KernelRun launch
  | EventRecorded nat
  | ShmRemoved string

record DSPCore =
  sequence_num :: u32
  ack_socket :: nat
  timing_socket :: nat
  stream :: nat
  initial_start :: nat
  kernel_start :: nat
  stop :: nat
  shr_mem :: nat
  rf_samples_size :: nat
  rf_samples_d :: nat
  first_stage_bp_filters_size :: nat
  first_stage_bp_filters_d :: nat
  second_stage_filters_size :: nat
  second_stage_filters_d :: nat
  third_stage_filters_size :: nat
  third_stage_filters_d :: nat
  first_stage_output_size :: nat
  first_stage_output_d :: nat
  second_stage_output_size :: nat
  second_stage_output_d :: nat
  third_stage_output_size :: nat
  third_stage_output_d :: nat
  host_output_size :: nat
  host_output_h :: nat
  total_process_timing_ms :: real
  decimate_kernel_timing_ms :: real

text \<open>
  The CUDA runtime, the host heap, the shared-memory regions and the sockets, as far as the
  functions of dsp.cu use them. Addresses and handles are natural numbers, 0 is the null
  pointer. \<open>allocs\<close> lists the live device allocations with their sizes, \<open>queue\<close> gives the
  pending work of every stream, \<open>event_time\<close> the time at which an event was last recorded,
  \<open>handlers\<close> and \<open>objects\<close> the live \<open>SharedMemoryHandler\<close> and \<open>DSPCore\<close> objects by address,
  \<open>segments\<close> the shared-memory regions that exist, \<open>trace\<close> what happened so far.
\<close>

record world =
  devices :: "cudaDeviceProp list"
  device_free :: nat
  allocs :: "(nat \<times> nat) list"
  host_allocs :: "nat list"
  live_streams :: "nat list"
  live_events :: "nat list"
  event_time :: "nat \<Rightarrow> real option"
  next_handle :: nat
  last_error :: cudaError
  clock :: real
  segments :: "string list"
  handlers :: "nat \<Rightarrow> string option"
  objects :: "nat \<Rightarrow> DSPCore option"
  queue :: "nat \<Rightarrow> stream_op list"
  trace :: "action list"

subsection \<open>The CUDA runtime\<close>

text \<open>
  The runtime calls follow the CUDA runtime documentation. A call that fails returns its error
  code and leaves it as the last error. \<open>cudaMalloc\<close> returns an address that no live
  allocation has; a request of no bytes returns the null pointer. \<open>cudaFree\<close> accepts the null
  pointer and fails on an address that is not allocated. The asynchronous calls only append
  to the queue of their stream.
\<close>

definition fail_with :: "cudaError \<Rightarrow> world \<Rightarrow> world" where
  "fail_with e w = w\<lparr>last_error := e\<rparr>"

definition enqueue :: "nat \<Rightarrow> stream_op \<Rightarrow> world \<Rightarrow> world" where
  "enqueue s op w = w\<lparr>queue := (queue w)(s := queue w s @ [op])\<rparr>"

definition fresh_address :: "world \<Rightarrow> nat" where
  "fresh_address w = fold max (map fst (allocs w)) 0 + 1"

definition cudaMalloc :: "world \<Rightarrow> nat \<Rightarrow> cudaError \<times> nat \<times> world" where
  "cudaMalloc w bytes =
     (if bytes = 0 then (cudaSuccess, 0, w)
      else if device_free w < bytes then
        (cudaErrorMemoryAllocation, 0, fail_with cudaErrorMemoryAllocation w)
      else (cudaSuccess, fresh_address w,
            w\<lparr>allocs := (fresh_address w, bytes) # allocs w, device_free := device_free w - bytes\<rparr>))"

definition cudaFree :: "world \<Rightarrow> nat \<Rightarrow> cudaError \<times> world" where
  "cudaFree w devPtr =
     (if devPtr = 0 then (cudaSuccess, w)
      else case map_of (allocs w) devPtr of
             None \<Rightarrow> (cudaErrorInvalidValue, fail_with cudaErrorInvalidValue w)
           | Some bytes \<Rightarrow>
               (cudaSuccess,
                w\<lparr>allocs := filter (\<lambda>a. fst a \<noteq> devPtr) (allocs w),
                  device_free := device_free w + bytes\<rparr>))"

definition cudaHostAlloc :: "world \<Rightarrow> nat \<Rightarrow> cudaError \<times> nat \<times> world" where
  "cudaHostAlloc w bytes =
     (if bytes = 0 then (cudaSuccess, 0, w)
      else (cudaSuccess, next_handle w,
            w\<lparr>host_allocs := next_handle w # host_allocs w, next_handle := next_handle w + 1\<rparr>))"

definition cudaFreeHost :: "world \<Rightarrow> nat \<Rightarrow> cudaError \<times> world" where
  "cudaFreeHost w p =
     (if p = 0 then (cudaSuccess, w)
      else if p \<in> set (host_allocs w) then
        (cudaSuccess, w\<lparr>host_allocs := removeAll p (host_allocs w)\<rparr>)
      else (cudaErrorInvalidValue, fail_with cudaErrorInvalidValue w))"

definition cudaStreamCreate :: "world \<Rightarrow> cudaError \<times> nat \<times> world" where
  "cudaStreamCreate w =
     (cudaSuccess, next_handle w,
      w\<lparr>live_streams := next_handle w # live_streams w, next_handle := next_handle w + 1\<rparr>)"

definition cudaStreamDestroy :: "world \<Rightarrow> nat \<Rightarrow> cudaError \<times> world" where
  "cudaStreamDestroy w s =
     (if s \<in> set (live_streams w) then
        (cudaSuccess, w\<lparr>live_streams := removeAll s (live_streams w)\<rparr>)
      else (cudaErrorInvalidResourceHandle, fail_with cudaErrorInvalidResourceHandle w))"

definition cudaEventCreate :: "world \<Rightarrow> cudaError \<times> nat \<times> world" where
  "cudaEventCreate w =
     (cudaSuccess, next_handle w,
      w\<lparr>live_events := next_handle w # live_events w, next_handle := next_handle w + 1\<rparr>)"

definition cudaEventDestroy :: "world \<Rightarrow> nat \<Rightarrow> cudaError \<times> world" where
  "cudaEventDestroy w e =
     (if e \<in> set (live_events w) then
        (cudaSuccess, w\<lparr>live_events := removeAll e (live_events w)\<rparr>)
      else (cudaErrorInvalidResourceHandle, fail_with cudaErrorInvalidResourceHandle w))"

definition cudaEventRecord :: "world \<Rightarrow> nat \<Rightarrow> nat \<Rightarrow> cudaError \<times> world" where
  "cudaEventRecord w e s =
     (if e \<in> set (live_events w) \<and> s \<in> set (live_streams w) then
        (cudaSuccess, enqueue s (OpRecord e) w)
      else (cudaErrorInvalidResourceHandle, fail_with cudaErrorInvalidResourceHandle w))"

definition cudaMemcpyAsync :: "world \<Rightarrow> nat \<Rightarrow> nat \<Rightarrow> nat \<Rightarrow> nat \<Rightarrow> cudaError \<times> world" where
  "cudaMemcpyAsync w dst src count s =
     (if s \<in> set (live_streams w) then (cudaSuccess, enqueue s (OpMemcpy dst src count) w)
      else (cudaErrorInvalidResourceHandle, fail_with cudaErrorInvalidResourceHandle w))"

definition cudaStreamAddCallback :: "world \<Rightarrow> nat \<Rightarrow> callback \<Rightarrow> nat \<Rightarrow> cudaError \<times> world" where
  "cudaStreamAddCallback w s cb userData =
     (if s \<in> set (live_streams w) then (cudaSuccess, enqueue s (OpCallback cb userData) w)
      else (cudaErrorInvalidResourceHandle, fail_with cudaErrorInvalidResourceHandle w))"

definition cudaEventElapsedTime :: "world \<Rightarrow> nat \<Rightarrow> nat \<Rightarrow> cudaError \<times> real" where
  "cudaEventElapsedTime w start end =
     (case (event_time w start, event_time w end) of
        (Some a, Some b) \<Rightarrow>
          if start \<in> set (live_events w) \<and> end \<in> set (live_events w) then (cudaSuccess, b - a)
          else (cudaErrorInvalidResourceHandle, 0)
      | _ \<Rightarrow> (cudaErrorInvalidResourceHandle, 0))"

definition cudaPeekAtLastError :: "world \<Rightarrow> cudaError" where
  "cudaPeekAtLastError w = last_error w"

text \<open>A launch is refused, and leaves \<open>cudaErrorInvalidConfiguration\<close> as the last error, when a
  dimension is zero or the block exceeds the limits of the device.\<close>

definition valid_configuration :: "world \<Rightarrow> launch \<Rightarrow> bool" where
  "valid_configuration w l \<longleftrightarrow>
     (case devices w of
        [] \<Rightarrow> False
      | p # ps \<Rightarrow>
          0 < dim_x (launch_grid l) \<and> 0 < dim_y (launch_grid l) \<and> 0 < dim_z (launch_grid l)
          \<and> 0 < dim_x (launch_block l) \<and> 0 < dim_y (launch_block l) \<and> 0 < dim_z (launch_block l)
          \<and> int (dim_x (launch_block l) * dim_y (launch_block l) * dim_z (launch_block l))
                \<le> maxThreadsPerBlock p
          \<and> launch_shared_bytes l \<le> sharedMemPerBlock p)"

definition cudaLaunch :: "world \<Rightarrow> launch \<Rightarrow> nat \<Rightarrow> world" where
  "cudaLaunch w l s =
     (if valid_configuration w l \<and> s \<in> set (live_streams w) then enqueue s (OpKernel l) w
      else fail_with cudaErrorInvalidConfiguration w)"

text \<open>The device side of the queued work: a copy and a kernel run, an event takes the time.\<close>

fun exec_device_op :: "stream_op \<Rightarrow> world \<Rightarrow> world" where
  "exec_device_op (OpMemcpy dst src count) w = w\<lparr>trace := trace w @ [Copied dst src count]\<rparr>"
| "exec_device_op (OpKernel l) w = w\<lparr>trace := trace w @ [KernelRun l]\<rparr>"
| "exec_device_op (OpRecord e) w =
     w\<lparr>event_time := (event_time w)(e \<mapsto> clock w), trace := trace w @ [EventRecorded e]\<rparr>"
| "exec_device_op (OpCallback cb userData) w = w"

text \<open>
  \<open>cudaEventSynchronize\<close> waits until the pending record of the event has happened: the work
  queued before it on its stream runs first. The result is the rest of the queue.
\<close>

fun run_until_recorded :: "nat \<Rightarrow> stream_op list \<Rightarrow> world \<Rightarrow> failure + stream_op list \<times> world" where
  "run_until_recorded e [] w = Inr ([], w)"
| "run_until_recorded e (OpCallback cb userData # ops) w = Inl WouldBlock"
| "run_until_recorded e (op # ops) w =
     (if op = OpRecord e then Inr (ops, exec_device_op op w)
      else run_until_recorded e ops (exec_device_op op w))"

definition cudaEventSynchronize :: "world \<Rightarrow> nat \<Rightarrow> failure + cudaError \<times> world" where
  "cudaEventSynchronize w e =
     (if e \<notin> set (live_events w) then
        Inr (cudaErrorInvalidResourceHandle, fail_with cudaErrorInvalidResourceHandle w)
      else case find (\<lambda>s. OpRecord e \<in> set (queue w s)) (live_streams w) of
             None \<Rightarrow> Inr (cudaSuccess, w)
           | Some s \<Rightarrow>
               and_then (run_until_recorded e (queue w s) w)
                 (\<lambda>(ops, w'). Inr (cudaSuccess, w'\<lparr>queue := (queue w')(s := ops)\<rparr>)))"

subsection \<open>The sockets and the shared memory\<close>

text \<open>Sending appends the message to the trace; a send that throws is not modelled.\<close>

definition socket_send :: "nat \<Rightarrow> SigProcPacket \<Rightarrow> world \<Rightarrow> world" where
  "socket_send sock msg w = w\<lparr>trace := trace w @ [Sent sock msg]\<rparr>"

text \<open>
  Modelled from the spec: the class \<open>SharedMemoryHandler\<close> is not among the sources. The spec
  has each sequence read one named slot of shared memory, fail when the slot is missing, and
  release the slot on teardown.
\<close>

definition new_SharedMemoryHandler :: "string \<Rightarrow> world \<Rightarrow> nat \<times> world" where
  "new_SharedMemoryHandler name w =
     (next_handle w,
      w\<lparr>handlers := (handlers w)(next_handle w \<mapsto> name), next_handle := next_handle w + 1\<rparr>)"

definition open_shr_mem :: "nat \<Rightarrow> world \<Rightarrow> failure + world" where
  "open_shr_mem h w =
     (case handlers w h of
        None \<Rightarrow> Inl DanglingPointer
      | Some name \<Rightarrow> if name \<in> set (segments w) then Inr w else Inl SegmentMissing)"

definition get_shrmem_addr :: "nat \<Rightarrow> world \<Rightarrow> nat" where
  "get_shrmem_addr h w = h"

definition remove_shr_mem :: "nat \<Rightarrow> world \<Rightarrow> failure + world" where
  "remove_shr_mem h w =
     (case handlers w h of
        None \<Rightarrow> Inl DanglingPointer
      | Some name \<Rightarrow>
          Inr (w\<lparr>segments := removeAll name (segments w), trace := trace w @ [ShmRemoved name]\<rparr>))"

definition delete_SharedMemoryHandler :: "nat \<Rightarrow> world \<Rightarrow> failure + world" where
  "delete_SharedMemoryHandler h w =
     (case handlers w h of
        None \<Rightarrow> Inl DanglingPointer
      | Some name \<Rightarrow> Inr (w\<lparr>handlers := (handlers w)(h := None)\<rparr>))"

subsection \<open>The member functions of DSPCore\<close>

text \<open>
  A member function takes the object and the state and returns both. \<open>raw\<close> is the content
  of the memory that \<open>new\<close> hands to the constructor: the members the constructor does not
  assign keep it.
\<close>

definition get_gpu_properties :: "world \<Rightarrow> cudaDeviceProp list" where
  "get_gpu_properties w = devices w"

definition DSPCore_constructor ::
  "DSPCore \<Rightarrow> nat \<Rightarrow> nat \<Rightarrow> u32 \<Rightarrow> string \<Rightarrow> world \<Rightarrow> failure + DSPCore \<times> world" where
  "DSPCore_constructor raw ack_s timing_s sq_num shr_mem_name w =
     (let dp = raw\<lparr>sequence_num := sq_num, ack_socket := ack_s, timing_socket := timing_s\<rparr>
      in and_then (checked (cudaStreamCreate w)) (\<lambda>(s, w).
         and_then (checked (cudaEventCreate w)) (\<lambda>(e1, w).
         and_then (checked (cudaEventCreate w)) (\<lambda>(e2, w).
         and_then (checked (cudaEventCreate w)) (\<lambda>(e3, w).
         and_then (checked (cudaEventRecord w e1 s)) (\<lambda>w.
           let (h, w) = new_SharedMemoryHandler shr_mem_name w
           in and_then (open_shr_mem h w) (\<lambda>w.
                Inr (dp\<lparr>stream := s, initial_start := e1, kernel_start := e2, stop := e3,
                        shr_mem := h\<rparr>, w))))))))"

definition allocate_and_copy_rf_samples :: "u32 \<Rightarrow> DSPCore \<Rightarrow> world \<Rightarrow> failure + DSPCore \<times> world" where
  "allocate_and_copy_rf_samples total_samples dp w =
     (let dp = dp\<lparr>rf_samples_size := unat total_samples * sizeof_cuComplex\<rparr>
      in and_then (checked (cudaMalloc w (rf_samples_size dp))) (\<lambda>(p, w).
           let dp = dp\<lparr>rf_samples_d := p\<rparr>
           in and_then (checked (cudaMemcpyAsync w (rf_samples_d dp) (get_shrmem_addr (shr_mem dp) w)
                                   (rf_samples_size dp) (stream dp)))
                (\<lambda>w. Inr (dp, w))))"

definition allocate_and_copy_first_stage_filters ::
  "nat \<Rightarrow> u32 \<Rightarrow> DSPCore \<Rightarrow> world \<Rightarrow> failure + DSPCore \<times> world" where
  "allocate_and_copy_first_stage_filters taps total_taps dp w =
     (let dp = dp\<lparr>first_stage_bp_filters_size := unat total_taps * sizeof_cuComplex\<rparr>
      in and_then (checked (cudaMalloc w (first_stage_bp_filters_size dp))) (\<lambda>(p, w).
           let dp = dp\<lparr>first_stage_bp_filters_d := p\<rparr>
           in and_then (checked (cudaMemcpyAsync w (first_stage_bp_filters_d dp) taps
                                   (first_stage_bp_filters_size dp) (stream dp)))
                (\<lambda>w. Inr (dp, w))))"

definition allocate_and_copy_second_stage_filter ::
  "nat \<Rightarrow> u32 \<Rightarrow> DSPCore \<Rightarrow> world \<Rightarrow> failure + DSPCore \<times> world" where
  "allocate_and_copy_second_stage_filter taps total_taps dp w =
     (let dp = dp\<lparr>second_stage_filters_size := unat total_taps * sizeof_cuComplex\<rparr>
      in and_then (checked (cudaMalloc w (second_stage_filters_size dp))) (\<lambda>(p, w).
           let dp = dp\<lparr>second_stage_filters_d := p\<rparr>
           in and_then (checked (cudaMemcpyAsync w (second_stage_filters_d dp) taps
                                   (second_stage_filters_size dp) (stream dp)))
                (\<lambda>w. Inr (dp, w))))"

definition allocate_and_copy_third_stage_filter ::
  "nat \<Rightarrow> u32 \<Rightarrow> DSPCore \<Rightarrow> world \<Rightarrow> failure + DSPCore \<times> world" where
  "allocate_and_copy_third_stage_filter taps total_taps dp w =
     (let dp = dp\<lparr>third_stage_filters_size := unat total_taps * sizeof_cuComplex\<rparr>
      in and_then (checked (cudaMalloc w (third_stage_filters_size dp))) (\<lambda>(p, w).
           let dp = dp\<lparr>third_stage_filters_d := p\<rparr>
           in and_then (checked (cudaMemcpyAsync w (third_stage_filters_d dp) taps
                                   (third_stage_filters_size dp) (stream dp)))
                (\<lambda>w. Inr (dp, w))))"

definition allocate_first_stage_output :: "u32 \<Rightarrow> DSPCore \<Rightarrow> world \<Rightarrow> failure + DSPCore \<times> world" where
  "allocate_first_stage_output num_first_stage_output_samples dp w =
     (let dp = dp\<lparr>first_stage_output_size := unat num_first_stage_output_samples * sizeof_cuComplex\<rparr>
      in and_then (checked (cudaMalloc w (first_stage_output_size dp)))
           (\<lambda>(p, w). Inr (dp\<lparr>first_stage_output_d := p\<rparr>, w)))"

definition allocate_second_stage_output :: "u32 \<Rightarrow> DSPCore \<Rightarrow> world \<Rightarrow> failure + DSPCore \<times> world" where
  "allocate_second_stage_output num_second_stage_output_samples dp w =
     (let dp = dp\<lparr>second_stage_output_size := unat num_second_stage_output_samples * sizeof_cuComplex\<rparr>
      in and_then (checked (cudaMalloc w (second_stage_output_size dp)))
           (\<lambda>(p, w). Inr (dp\<lparr>second_stage_output_d := p\<rparr>, w)))"

definition allocate_third_stage_output :: "u32 \<Rightarrow> DSPCore \<Rightarrow> world \<Rightarrow> failure + DSPCore \<times> world" where
  "allocate_third_stage_output num_third_stage_output_samples dp w =
     (let dp = dp\<lparr>third_stage_output_size := unat num_third_stage_output_samples * sizeof_cuComplex\<rparr>
      in and_then (checked (cudaMalloc w (third_stage_output_size dp)))
           (\<lambda>(p, w). Inr (dp\<lparr>third_stage_output_d := p\<rparr>, w)))"

definition allocate_and_copy_host_output :: "u32 \<Rightarrow> DSPCore \<Rightarrow> world \<Rightarrow> failure + DSPCore \<times> world" where
  "allocate_and_copy_host_output num_host_samples dp w =
     (let dp = dp\<lparr>host_output_size := unat num_host_samples * sizeof_cuComplex\<rparr>
      in and_then (checked (cudaHostAlloc w (host_output_size dp))) (\<lambda>(p, w).
           let dp = dp\<lparr>host_output_h := p\<rparr>
           in and_then (checked (cudaMemcpyAsync w (host_output_h dp) (third_stage_output_d dp)
                                   (host_output_size dp) (stream dp)))
                (\<lambda>w. Inr (dp, w))))"

definition clear_device_and_destroy :: "DSPCore \<Rightarrow> world \<Rightarrow> failure + DSPCore \<times> world" where
  "clear_device_and_destroy dp w =
     and_then (checked (cudaFree w (rf_samples_d dp))) (\<lambda>w.
     and_then (checked (cudaFree w (first_stage_bp_filters_d dp))) (\<lambda>w.
     and_then (checked (cudaFree w (second_stage_filters_d dp))) (\<lambda>w.
     and_then (checked (cudaFree w (third_stage_filters_d dp))) (\<lambda>w.
     and_then (checked (cudaFree w (first_stage_output_d dp))) (\<lambda>w.
     and_then (checked (cudaFree w (second_stage_output_d dp))) (\<lambda>w.
     and_then (checked (cudaFree w (third_stage_output_d dp))) (\<lambda>w.
     and_then (checked (cudaFreeHost w (host_output_h dp))) (\<lambda>w.
     and_then (checked (cudaEventDestroy w (initial_start dp))) (\<lambda>w.
     and_then (checked (cudaEventDestroy w (kernel_start dp))) (\<lambda>w.
     and_then (checked (cudaEventDestroy w (stop dp))) (\<lambda>w.
     and_then (checked (cudaStreamDestroy w (stream dp))) (\<lambda>w.
     and_then (remove_shr_mem (shr_mem dp) w) (\<lambda>w.
     and_then (delete_SharedMemoryHandler (shr_mem dp) w) (\<lambda>w.
       Inr (dp, w)))))))))))))))"

definition stop_timing :: "DSPCore \<Rightarrow> world \<Rightarrow> failure + DSPCore \<times> world" where
  "stop_timing dp w =
     and_then (checked (cudaEventRecord w (stop dp) (stream dp))) (\<lambda>w.
     and_then (cudaEventSynchronize w (stop dp)) (\<lambda>r.
     and_then (checked r) (\<lambda>w.
     and_then (checked (cudaEventElapsedTime w (initial_start dp) (stop dp))) (\<lambda>total.
       let dp = dp\<lparr>total_process_timing_ms := total\<rparr>
       in and_then (checked (cudaEventElapsedTime w (kernel_start dp) (stop dp))) (\<lambda>decimate.
            Inr (dp\<lparr>decimate_kernel_timing_ms := decimate\<rparr>, w))))))"

definition send_timing :: "DSPCore \<Rightarrow> world \<Rightarrow> failure + DSPCore \<times> world" where
  "send_timing dp w =
     (let sp = \<lparr>kerneltime = None, SigProcPacket.sequence_num = None\<rparr>;
          sp = sp\<lparr>kerneltime := Some (decimate_kernel_timing_ms dp)\<rparr>;
          sp = sp\<lparr>SigProcPacket.sequence_num := Some (sequence_num dp)\<rparr>
      in Inr (dp, socket_send (timing_socket dp) sp w))"

definition send_ack :: "DSPCore \<Rightarrow> world \<Rightarrow> failure + DSPCore \<times> world" where
  "send_ack dp w =
     (let sp = \<lparr>kerneltime = None, SigProcPacket.sequence_num = None\<rparr>;
          sp = sp\<lparr>SigProcPacket.sequence_num := Some (sequence_num dp)\<rparr>
      in Inr (dp, socket_send (ack_socket dp) sp w))"

definition start_decimate_timing :: "DSPCore \<Rightarrow> world \<Rightarrow> failure + DSPCore \<times> world" where
  "start_decimate_timing dp w =
     and_then (checked (cudaEventRecord w (kernel_start dp) (stream dp))) (\<lambda>w. Inr (dp, w))"

text \<open>
  \<open>call_decimate\<close>. The product of the two \<open>uint32_t\<close> is compared with an \<open>int\<close>, which C++
  converts to \<open>unsigned\<close>. The first branch of the source is empty but for a comment.
\<close>

definition call_decimate ::
  "nat \<Rightarrow> nat \<Rightarrow> nat \<Rightarrow> u32 \<Rightarrow> u32 \<Rightarrow> u32 \<Rightarrow> u32 \<Rightarrow> u32 \<Rightarrow> DSPCore \<Rightarrow> world
     \<Rightarrow> failure + DSPCore \<times> world" where
  "call_decimate original_samples decimated_samples filter_taps dm_rate samples_per_antenna
       num_taps_per_filter num_freqs num_antennas dp w =
     (case get_gpu_properties w of
        [] \<Rightarrow> Inl IndexOutOfRange
      | p # ps \<Rightarrow>
          and_then
            (if num_taps_per_filter * num_freqs > word_of_int (2 * maxThreadsPerBlock p) then
               Inr w
             else if num_taps_per_filter * num_freqs > word_of_int (maxThreadsPerBlock p) then
               (case decimate2048_wrapper original_samples decimated_samples filter_taps dm_rate
                       samples_per_antenna num_taps_per_filter num_freqs num_antennas of
                  None \<Rightarrow> Inl DivisionByZero
                | Some l \<Rightarrow> Inr (cudaLaunch w l (stream dp)))
             else
               (case decimate1024_wrapper original_samples decimated_samples filter_taps dm_rate
                       samples_per_antenna num_taps_per_filter num_freqs num_antennas of
                  None \<Rightarrow> Inl DivisionByZero
                | Some l \<Rightarrow> Inr (cudaLaunch w l (stream dp))))
            (\<lambda>w. and_then (gpuErrchk (cudaPeekAtLastError w)) (\<lambda>u. Inr (dp, w))))"

definition get_rf_samples_p :: "DSPCore \<Rightarrow> nat" where
  "get_rf_samples_p dp = rf_samples_d dp"

definition get_first_stage_bp_filters_p :: "DSPCore \<Rightarrow> nat" where
  "get_first_stage_bp_filters_p dp = first_stage_bp_filters_d dp"

definition get_second_stage_filter_p :: "DSPCore \<Rightarrow> nat" where
  "get_second_stage_filter_p dp = second_stage_filters_d dp"

definition get_third_stage_filter_p :: "DSPCore \<Rightarrow> nat" where
  "get_third_stage_filter_p dp = third_stage_filters_d dp"

definition get_first_stage_output_p :: "DSPCore \<Rightarrow> nat" where
  "get_first_stage_output_p dp = first_stage_output_d dp"

definition get_second_stage_output_p :: "DSPCore \<Rightarrow> nat" where
  "get_second_stage_output_p dp = second_stage_filters_d dp"

definition get_third_stage_output_p :: "DSPCore \<Rightarrow> nat" where
  "get_third_stage_output_p dp = third_stage_filters_d dp"

definition get_cuda_stream :: "DSPCore \<Rightarrow> nat" where
  "get_cuda_stream dp = stream dp"

definition get_total_timing :: "DSPCore \<Rightarrow> real" where
  "get_total_timing dp = total_process_timing_ms dp"

definition get_decimate_timing :: "DSPCore \<Rightarrow> real" where
  "get_decimate_timing dp = decimate_kernel_timing_ms dp"

subsection \<open>Calls through a pointer, the callbacks and the postprocessing\<close>

text \<open>\<open>dp->f(...)\<close> and \<open>delete dp\<close> for a pointer \<open>dp\<close> to a \<open>DSPCore\<close> on the heap.\<close>

definition call_member ::
  "nat \<Rightarrow> (DSPCore \<Rightarrow> world \<Rightarrow> failure + DSPCore \<times> world) \<Rightarrow> world \<Rightarrow> failure + world" where
  "call_member dp f w =
     (case objects w dp of
        None \<Rightarrow> Inl DanglingPointer
      | Some obj \<Rightarrow>
          and_then (f obj w) (\<lambda>(obj', w'). Inr (w'\<lparr>objects := (objects w')(dp \<mapsto> obj')\<rparr>)))"

definition delete_DSPCore :: "nat \<Rightarrow> world \<Rightarrow> failure + world" where
  "delete_DSPCore dp w =
     (case objects w dp of
        None \<Rightarrow> Inl DanglingPointer
      | Some obj \<Rightarrow> Inr (w\<lparr>objects := (objects w)(dp := None)\<rparr>))"

text \<open>The two statements that end \<open>postprocess\<close>: the teardown of an instance.\<close>

definition clear_and_delete :: "nat \<Rightarrow> world \<Rightarrow> failure + world" where
  "clear_and_delete dp w =
     and_then (call_member dp clear_device_and_destroy w) (delete_DSPCore dp)"

definition postprocess :: "nat \<Rightarrow> world \<Rightarrow> failure + world" where
  "postprocess dp w =
     and_then (call_member dp stop_timing w) (\<lambda>w.
     and_then (call_member dp send_timing w) (\<lambda>w.
       clear_and_delete dp w))"

text \<open>The thread that \<open>cuda_postprocessing_callback\<close> detaches and the thread that
  \<open>initial_memcpy_callback\<close> joins run at once.\<close>

definition cuda_postprocessing_callback :: "cudaError \<Rightarrow> nat \<Rightarrow> world \<Rightarrow> failure + world" where
  "cuda_postprocessing_callback status processing_data w =
     and_then (gpuErrchk status) (\<lambda>u. postprocess processing_data w)"

definition initial_memcpy_callback_handler :: "nat \<Rightarrow> world \<Rightarrow> failure + world" where
  "initial_memcpy_callback_handler dp w =
     and_then (call_member dp send_ack w) (\<lambda>w. call_member dp start_decimate_timing w)"

definition initial_memcpy_callback :: "cudaError \<Rightarrow> nat \<Rightarrow> world \<Rightarrow> failure + world" where
  "initial_memcpy_callback status processing_data w =
     and_then (gpuErrchk status) (\<lambda>u. initial_memcpy_callback_handler processing_data w)"

subsection \<open>The stream at work\<close>

text \<open>
  The stream runs the work at the head of its queue. A callback gets the status of the work
  before it, which is \<open>cudaSuccess\<close> here: device faults are not modelled.
\<close>

definition exec_op :: "stream_op \<Rightarrow> world \<Rightarrow> failure + world" where
  "exec_op op w =
     (case op of
        OpCallback Initial_memcpy_callback userData \<Rightarrow> initial_memcpy_callback cudaSuccess userData w
      | OpCallback Cuda_postprocessing_callback userData \<Rightarrow>
          cuda_postprocessing_callback cudaSuccess userData w
      | _ \<Rightarrow> Inr (exec_device_op op w))"

definition stream_step :: "nat \<Rightarrow> world \<Rightarrow> failure + world" where
  "stream_step s w =
     (case queue w s of
        [] \<Rightarrow> Inr w
      | op # ops \<Rightarrow> exec_op op (w\<lparr>queue := (queue w)(s := ops)\<rparr>))"

subsection \<open>One sequence\<close>

text \<open>
  Modelled from the spec: the function that drives a sequence is not among the sources. The
  spec (4.5) gives its steps, all on the stream of the instance: create the instance, allocate
  the samples and queue their copy, attach the copy-complete callback, allocate and queue the
  copy of the three filter banks, allocate the three outputs, launch the three stages,
  allocate the host output and queue its copy, attach the finalisation callback.
\<close>

record stage_config =
  stage_taps :: nat
  stage_total_taps :: u32
  stage_output_samples :: u32
  stage_dm_rate :: u32
  stage_samples_per_antenna :: u32
  stage_num_taps_per_filter :: u32
  stage_num_freqs :: u32
  stage_num_antennas :: u32

record sequence_config =
  total_samples :: u32
  stage1 :: stage_config
  stage2 :: stage_config
  stage3 :: stage_config
  num_host_samples :: u32

datatype host_action =
    Allocate_and_copy_rf_samples
  | Add_initial_memcpy_callback
  | Allocate_and_copy_filters
  | Allocate_outputs
  | Decimate_stage1
  | Decimate_stage2
  | Decimate_stage3
  | Allocate_and_copy_host_output
  | Add_postprocessing_callback

definition add_callback :: "callback \<Rightarrow> nat \<Rightarrow> world \<Rightarrow> failure + world" where
  "add_callback cb dp w =
     (case objects w dp of
        None \<Rightarrow> Inl DanglingPointer
      | Some obj \<Rightarrow> checked (cudaStreamAddCallback w (get_cuda_stream obj) cb dp))"

definition host_step :: "sequence_config \<Rightarrow> nat \<Rightarrow> host_action \<Rightarrow> world \<Rightarrow> failure + world" where
  "host_step c dp a w =
     (case a of
        Allocate_and_copy_rf_samples \<Rightarrow> call_member dp (allocate_and_copy_rf_samples (total_samples c)) w
      | Add_initial_memcpy_callback \<Rightarrow> add_callback Initial_memcpy_callback dp w
      | Allocate_and_copy_filters \<Rightarrow>
          and_then (call_member dp (allocate_and_copy_first_stage_filters
                      (stage_taps (stage1 c)) (stage_total_taps (stage1 c))) w) (\<lambda>w.
          and_then (call_member dp (allocate_and_copy_second_stage_filter
                      (stage_taps (stage2 c)) (stage_total_taps (stage2 c))) w) (\<lambda>w.
            call_member dp (allocate_and_copy_third_stage_filter
                      (stage_taps (stage3 c)) (stage_total_taps (stage3 c))) w))
      | Allocate_outputs \<Rightarrow>
          and_then (call_member dp (allocate_first_stage_output (stage_output_samples (stage1 c))) w) (\<lambda>w.
          and_then (call_member dp (allocate_second_stage_output (stage_output_samples (stage2 c))) w) (\<lambda>w.
            call_member dp (allocate_third_stage_output (stage_output_samples (stage3 c))) w))
      | Decimate_stage1 \<Rightarrow>
          call_member dp (\<lambda>obj. call_decimate (get_rf_samples_p obj) (get_first_stage_output_p obj)
              (get_first_stage_bp_filters_p obj) (stage_dm_rate (stage1 c))
              (stage_samples_per_antenna (stage1 c)) (stage_num_taps_per_filter (stage1 c))
              (stage_num_freqs (stage1 c)) (stage_num_antennas (stage1 c)) obj) w
      | Decimate_stage2 \<Rightarrow>
          call_member dp (\<lambda>obj. call_decimate (get_first_stage_output_p obj) (get_second_stage_output_p obj)
              (get_second_stage_filter_p obj) (stage_dm_rate (stage2 c))
              (stage_samples_per_antenna (stage2 c)) (stage_num_taps_per_filter (stage2 c))
              (stage_num_freqs (stage2 c)) (stage_num_antennas (stage2 c)) obj) w
      | Decimate_stage3 \<Rightarrow>
          call_member dp (\<lambda>obj. call_decimate (get_second_stage_output_p obj) (get_third_stage_output_p obj)
              (get_third_stage_filter_p obj) (stage_dm_rate (stage3 c))
              (stage_samples_per_antenna (stage3 c)) (stage_num_taps_per_filter (stage3 c))
              (stage_num_freqs (stage3 c)) (stage_num_antennas (stage3 c)) obj) w
      | Allocate_and_copy_host_output \<Rightarrow>
          call_member dp (allocate_and_copy_host_output (num_host_samples c)) w
      | Add_postprocessing_callback \<Rightarrow> add_callback Cuda_postprocessing_callback dp w)"

definition sequence_program :: "host_action list" where
  "sequence_program =
     [Allocate_and_copy_rf_samples, Add_initial_memcpy_callback, Allocate_and_copy_filters,
      Allocate_outputs, Decimate_stage1, Decimate_stage2, Decimate_stage3,
      Allocate_and_copy_host_output, Add_postprocessing_callback]"

definition new_DSPCore ::
  "DSPCore \<Rightarrow> nat \<Rightarrow> nat \<Rightarrow> u32 \<Rightarrow> string \<Rightarrow> world \<Rightarrow> failure + nat \<times> world" where
  "new_DSPCore raw ack_s timing_s sq_num shr_mem_name w =
     and_then (DSPCore_constructor raw ack_s timing_s sq_num shr_mem_name w) (\<lambda>(obj, w).
       Inr (next_handle w,
            w\<lparr>objects := (objects w)(next_handle w \<mapsto> obj), next_handle := next_handle w + 1\<rparr>))"

text \<open>
  An execution of a sequence: the host thread and the stream \<open>s\<close> of the instance take turns
  in any order. A schedule says who moves next: \<open>True\<close> is the next step of the host program,
  \<open>False\<close> the work at the head of the stream's queue. A turn with nothing to do is skipped.
\<close>

fun run_schedule ::
  "sequence_config \<Rightarrow> nat \<Rightarrow> nat \<Rightarrow> bool list \<Rightarrow> host_action list \<Rightarrow> world
     \<Rightarrow> failure + host_action list \<times> world" where
  "run_schedule c dp s [] prog w = Inr (prog, w)"
| "run_schedule c dp s (True # sched) [] w = run_schedule c dp s sched [] w"
| "run_schedule c dp s (True # sched) (a # prog) w =
     and_then (host_step c dp a w) (run_schedule c dp s sched prog)"
| "run_schedule c dp s (False # sched) prog w =
     and_then (stream_step s w) (run_schedule c dp s sched prog)"

text \<open>A whole sequence: the instance is created, then host and stream take their turns.\<close>

definition run_sequence ::
  "DSPCore \<Rightarrow> nat \<Rightarrow> nat \<Rightarrow> u32 \<Rightarrow> string \<Rightarrow> sequence_config \<Rightarrow> bool list \<Rightarrow> world
     \<Rightarrow> failure + host_action list \<times> world" where
  "run_sequence raw ack_s timing_s sq_num shr_mem_name c sched w =
     and_then (new_DSPCore raw ack_s timing_s sq_num shr_mem_name w) (\<lambda>(dp, w).
       case objects w dp of
         None \<Rightarrow> Inl DanglingPointer
       | Some obj \<Rightarrow> run_schedule c dp (get_cuda_stream obj) sched sequence_program w)"

subsection \<open>A small sequence\<close>

text \<open>
  A process with one device of the usual limits, one shared-memory region and no object yet;
  a sequence of 2 antennas with 64 samples each, decimated by 4, 2 and 2 with filters of 32, 32
  and 32 taps for 2 frequencies.
\<close>

definition example_world :: world where
  "example_world =
     \<lparr>devices = [\<lparr>maxThreadsPerBlock = 1024, sharedMemPerBlock = 49152\<rparr>],
      device_free = 1000000, allocs = [], host_allocs = [], live_streams = [], live_events = [],
      event_time = (\<lambda>e. None), next_handle = 1, last_error = cudaSuccess, clock = 0,
      segments = [''slot0''], handlers = (\<lambda>h. None), objects = (\<lambda>p. None),
      queue = (\<lambda>s. []), trace = []\<rparr>"

definition example_raw :: DSPCore where
  "example_raw =
     \<lparr>sequence_num = 0, ack_socket = 0, timing_socket = 0, stream = 0, initial_start = 0,
      kernel_start = 0, stop = 0, shr_mem = 0, rf_samples_size = 0, rf_samples_d = 0,
      first_stage_bp_filters_size = 0, first_stage_bp_filters_d = 0,
      second_stage_filters_size = 0, second_stage_filters_d = 0,
      third_stage_filters_size = 0, third_stage_filters_d = 0,
      first_stage_output_size = 0, first_stage_output_d = 0,
      second_stage_output_size = 0, second_stage_output_d = 0,
      third_stage_output_size = 0, third_stage_output_d = 0,
      host_output_size = 0, host_output_h = 0,
      total_process_timing_ms = 0, decimate_kernel_timing_ms = 0\<rparr>"

definition example_config :: sequence_config where
  "example_config =
     \<lparr>total_samples = 128,
      stage1 = \<lparr>stage_taps = 1001, stage_total_taps = 64, stage_output_samples = 64,
                stage_dm_rate = 4, stage_samples_per_antenna = 64,
                stage_num_taps_per_filter = 32, stage_num_freqs = 2, stage_num_antennas = 2\<rparr>,
      stage2 = \<lparr>stage_taps = 1002, stage_total_taps = 64, stage_output_samples = 32,
                stage_dm_rate = 2, stage_samples_per_antenna = 16,
                stage_num_taps_per_filter = 32, stage_num_freqs = 2, stage_num_antennas = 2\<rparr>,
      stage3 = \<lparr>stage_taps = 1003, stage_total_taps = 64, stage_output_samples = 16,
                stage_dm_rate = 2, stage_samples_per_antenna = 8,
                stage_num_taps_per_filter = 32, stage_num_freqs = 2, stage_num_antennas = 2\<rparr>,
      num_host_samples = 16\<rparr>"

text \<open>Two schedules: the host program alone, and the host program followed by the stream
  until its queue is empty.\<close>

definition host_only :: "bool list" where
  "host_only = [True, True, True, True, True, True, True, True, True]"

definition host_then_stream :: "bool list" where
  "host_then_stream =
     [True, True, True, True, True, True, True, True, True,
      False, False, False, False, False, False, False, False, False, False, False, False]"

text \<open>The process after the constructor (the instance is the object at address 6), after the
  copy-complete callback of that instance, and after the whole host program.\<close>

definition example_started :: world where
  "example_started = snd (projr (new_DSPCore example_raw 11 12 7 ''slot0'' example_world))"

definition example_acked :: world where
  "example_acked = projr (initial_memcpy_callback cudaSuccess 6 example_started)"

definition example_allocated :: world where
  "example_allocated =
     snd (projr (run_sequence example_raw 11 12 7 ''slot0'' example_config host_only example_world))"

text \<open>
  An instance whose stage has 4096 taps for 2 frequencies, more than twice the
  \<open>maxThreadsPerBlock\<close> of the device: after the constructor the stream records
  \<open>initial_start\<close>, the copy-complete callback runs, \<open>call_decimate\<close> is called for the stage,
  the stream records \<open>kernel_start\<close> and the postprocessing callback runs.
\<close>

definition example_oversized_stage :: "failure + world" where
  "example_oversized_stage =
     and_then (stream_step 1 example_started) (\<lambda>w.
     and_then (initial_memcpy_callback cudaSuccess 6 w) (\<lambda>w.
     and_then (call_member 6 (call_decimate 1 2 3 4 64 4096 2 2) w) (\<lambda>w.
     and_then (stream_step 1 w) (\<lambda>w.
       cuda_postprocessing_callback cudaSuccess 6 w))))"

subsection \<open>The order of what the process does\<close>

text \<open>
  The vocabulary of the ordering properties. \<open>ack_message\<close> is the message that \<open>send_ack\<close>
  builds, \<open>before_ack\<close> the part of a trace that precedes the first acknowledgement; a slot is
  released, or an event recorded, before the acknowledgement when the action is in that part.
  The remaining predicates describe what a call leaves unchanged: \<open>device_work k\<close> is queued
  work that is neither a callback nor the record of the event \<open>k\<close>, \<open>same_instance\<close> relates two
  states of an object with the same handles, sockets and sequence number, \<open>member_effect\<close> and
  \<open>host_effect\<close> say that a call sent nothing and only appended work to the stream of the
  instance, and \<open>ack_pending\<close> that the copy-complete callback comes before any other callback
  and before any record of \<open>k\<close>, in the queue or else in the rest of the host program.
\<close>

fun is_release :: "action \<Rightarrow> bool" where
  "is_release (ShmRemoved name) = True"
| "is_release a = False"

definition ack_message :: "nat \<Rightarrow> u32 \<Rightarrow> action" where
  "ack_message sock sq = Sent sock \<lparr>kerneltime = None, SigProcPacket.sequence_num = Some sq\<rparr>"

definition before_ack :: "action \<Rightarrow> action list \<Rightarrow> action list" where
  "before_ack ack tr = takeWhile (\<lambda>a. a \<noteq> ack) tr"


definition recorded_before_ack :: "nat \<Rightarrow> action \<Rightarrow> action list \<Rightarrow> bool" where
  "recorded_before_ack e ack tr \<longleftrightarrow> EventRecorded e \<in> set (before_ack ack tr)"

definition device_work :: "nat \<Rightarrow> stream_op \<Rightarrow> bool" where
  "device_work k op \<longleftrightarrow> (case op of OpCallback cb u \<Rightarrow> False | OpRecord e \<Rightarrow> e \<noteq> k | _ \<Rightarrow> True)"

definition same_instance :: "DSPCore \<Rightarrow> DSPCore \<Rightarrow> bool" where
  "same_instance a b \<longleftrightarrow>
     stream a = stream b \<and> ack_socket a = ack_socket b \<and> timing_socket a = timing_socket b
     \<and> DSPCore.sequence_num a = DSPCore.sequence_num b \<and> initial_start a = initial_start b
     \<and> kernel_start a = kernel_start b \<and> stop a = stop b \<and> shr_mem a = shr_mem b"

definition member_effect :: "nat \<Rightarrow> DSPCore \<Rightarrow> world \<Rightarrow> DSPCore \<Rightarrow> world \<Rightarrow> bool" where
  "member_effect k obj w obj' w' \<longleftrightarrow>
     same_instance obj obj' \<and> trace w' = trace w \<and> objects w' = objects w
     \<and> (\<exists>ext. queue w' = (queue w)(stream obj := queue w (stream obj) @ ext)
              \<and> (\<forall>op\<in>set ext. device_work k op))"

definition host_effect :: "nat \<Rightarrow> DSPCore \<Rightarrow> world \<Rightarrow> world \<Rightarrow> stream_op list \<Rightarrow> bool" where
  "host_effect dp obj w w' ext \<longleftrightarrow>
     trace w' = trace w \<and> (\<exists>obj'. objects w' dp = Some obj' \<and> same_instance obj obj')
     \<and> queue w' (stream obj) = queue w (stream obj) @ ext"

definition ack_pending :: "nat \<Rightarrow> nat \<Rightarrow> stream_op list \<Rightarrow> host_action list \<Rightarrow> bool" where
  "ack_pending k dp q prog \<longleftrightarrow>
     (\<exists>pre post. q = pre @ OpCallback Initial_memcpy_callback dp # post
                  \<and> (\<forall>op\<in>set pre. device_work k op))
     \<or> ((\<forall>op\<in>set q. device_work k op)
         \<and> Add_postprocessing_callback
               \<notin> set (takeWhile (\<lambda>a. a \<noteq> Add_initial_memcpy_callback) prog))"

subsection \<open>The state of a reduction\<close>

text \<open>
  \<open>strided_sum d base a n\<close> adds the \<open>n\<close> entries of \<open>d\<close> at \<open>base\<close>, \<open>base + a\<close>, \<open>base + 2a\<close>
  and so on. A block is \<open>reduced_to a\<close> when in every row both the register and the shared
  cell of each of the first \<open>a\<close> threads hold the sum of the entries of the row that lie at a
  multiple of \<open>a\<close> from that thread.
\<close>

definition strided_sum :: "(nat \<Rightarrow> cuComplex) \<Rightarrow> nat \<Rightarrow> nat \<Rightarrow> nat \<Rightarrow> cuComplex" where
  "strided_sum d base a n = (\<Sum>j<n. d (base + j * a))"

definition reduced_to :: "nat \<Rightarrow> (nat \<Rightarrow> cuComplex) \<Rightarrow> dim3 \<Rightarrow> block_state \<Rightarrow> bool" where
  "reduced_to a d bd s \<longleftrightarrow>
     (\<forall>ty<dim_y bd. \<forall>tx<a.
        total_sum s (tx, ty) = strided_sum d (ty * dim_x bd + tx) a (dim_x bd div a)
        \<and> data s (ty * dim_x bd + tx) = strided_sum d (ty * dim_x bd + tx) a (dim_x bd div a))"

section \<open>Reads of the input buffer\<close>

lemma unat_add_less_bound: "l < spa \<Longrightarrow> unat (a + l) < unat a + unat (spa::u32)"
proof -
  assume "l < spa"
  then have "unat l < unat spa" by (simp add: word_less_nat_alt)
  moreover have "unat (a + l) \<le> unat a + unat l" by (simp add: unat_word_ariths)
  ultimately show ?thesis by linarith
qed

lemma succ_local_index: "l < spa \<Longrightarrow> \<not> spa - 1 \<le> l \<Longrightarrow> l + 1 < (spa::u32)"
  by unat_arith

lemma load_sample_reads:
  assumes "i \<in> set (snd (load_sample orig dm spa b t))"
  shows "\<exists>l. l < spa \<and> i = of_nat (snd b) * spa + l
            \<and> unat i < unat (of_nat (snd b) * spa :: u32) + unat spa"
proof -
  let ?l = "of_nat (fst b) * dm + of_nat (fst t) :: u32"
  from assms have l: "?l < spa" and i: "i = of_nat (snd b) * spa + ?l"
    by (auto simp: load_sample_def Let_def not_le add.assoc split: if_splits)
  from unat_add_less_bound[OF l] i show ?thesis using l by blast
qed

lemma load_two_samples_reads:
  assumes "i \<in> set (snd (load_two_samples orig dm spa b t))"
  shows "\<exists>l. l < spa \<and> i = of_nat (snd b) * spa + l
            \<and> unat i < unat (of_nat (snd b) * spa :: u32) + unat spa"
proof -
  let ?l = "of_nat (fst b) * dm + 2 * of_nat (fst t) :: u32"
  from assms have l: "?l < spa"
    and i: "i = of_nat (snd b) * spa + ?l
              \<or> (\<not> spa - 1 \<le> ?l \<and> i = of_nat (snd b) * spa + (?l + 1))"
    by (auto simp: load_two_samples_def Let_def not_le add.assoc split: if_splits)
  from i show ?thesis
  proof
    assume "i = of_nat (snd b) * spa + ?l"
    with unat_add_less_bound[OF l] l show ?thesis by blast
  next
    assume a: "\<not> spa - 1 \<le> ?l \<and> i = of_nat (snd b) * spa + (?l + 1)"
    then have l1: "?l + 1 < spa" using succ_local_index[OF l] by blast
    from unat_add_less_bound[OF l1] a l1 show ?thesis by blast
  qed
qed

text \<open>
  C5. In both kernels every index at which a thread of block \<open>b\<close> reads \<open>original_samples\<close> is
  \<open>antenna_offset + l\<close> for an antenna-local index \<open>l < samples_per_antenna\<close>, and so lies below
  \<open>antenna_offset + samples_per_antenna\<close>. A thread of the small kernel whose
  \<open>dec_sample_offset + threadIdx.x\<close> is \<open>samples_per_antenna\<close> or more reads nothing and loads
  zero; a thread of the large kernel reads nothing and loads two zeros when its first sample
  is out of range, and reads only the first sample and loads zero for the second when only the
  second is out of range.
\<close>

theorem original_samples_reads_in_bounds:
  fixes dm_rate samples_per_antenna :: u32
  defines "antenna_offset b \<equiv> (of_nat (snd b) :: u32) * samples_per_antenna"
      and "dec_sample_offset b \<equiv> (of_nat (fst b) :: u32) * dm_rate"
  shows
    "(\<forall>i \<in> set (snd (load_sample original_samples dm_rate samples_per_antenna b t)).
        \<exists>l. l < samples_per_antenna \<and> i = antenna_offset b + l
           \<and> unat i < unat (antenna_offset b) + unat samples_per_antenna)
     \<and> (\<forall>i \<in> set (snd (load_two_samples original_samples dm_rate samples_per_antenna b t)).
        \<exists>l. l < samples_per_antenna \<and> i = antenna_offset b + l
           \<and> unat i < unat (antenna_offset b) + unat samples_per_antenna)
     \<and> (dec_sample_offset b + of_nat (fst t) \<ge> samples_per_antenna \<longrightarrow>
          load_sample original_samples dm_rate samples_per_antenna b t = (0, []))
     \<and> (dec_sample_offset b + 2 * of_nat (fst t) \<ge> samples_per_antenna \<longrightarrow>
          load_two_samples original_samples dm_rate samples_per_antenna b t = ((0, 0), []))
     \<and> (dec_sample_offset b + 2 * of_nat (fst t) < samples_per_antenna
          \<and> dec_sample_offset b + 2 * of_nat (fst t) \<ge> samples_per_antenna - 1 \<longrightarrow>
          snd (fst (load_two_samples original_samples dm_rate samples_per_antenna b t)) = 0
          \<and> snd (load_two_samples original_samples dm_rate samples_per_antenna b t)
              = [antenna_offset b + dec_sample_offset b + 2 * of_nat (fst t)])"
proof (intro conjI ballI impI)
  fix i assume "i \<in> set (snd (load_sample original_samples dm_rate samples_per_antenna b t))"
  then show "\<exists>l. l < samples_per_antenna \<and> i = antenna_offset b + l
           \<and> unat i < unat (antenna_offset b) + unat samples_per_antenna"
    unfolding antenna_offset_def by (rule load_sample_reads)
next
  fix i assume "i \<in> set (snd (load_two_samples original_samples dm_rate samples_per_antenna b t))"
  then show "\<exists>l. l < samples_per_antenna \<and> i = antenna_offset b + l
           \<and> unat i < unat (antenna_offset b) + unat samples_per_antenna"
    unfolding antenna_offset_def by (rule load_two_samples_reads)
next
  assume "dec_sample_offset b + of_nat (fst t) \<ge> samples_per_antenna"
  then show "load_sample original_samples dm_rate samples_per_antenna b t = (0, [])"
    by (simp add: load_sample_def dec_sample_offset_def Let_def)
next
  assume "dec_sample_offset b + 2 * of_nat (fst t) \<ge> samples_per_antenna"
  then show "load_two_samples original_samples dm_rate samples_per_antenna b t = ((0, 0), [])"
    by (simp add: load_two_samples_def dec_sample_offset_def Let_def)
next
  assume a: "dec_sample_offset b + 2 * of_nat (fst t) < samples_per_antenna
          \<and> dec_sample_offset b + 2 * of_nat (fst t) \<ge> samples_per_antenna - 1"
  then have n: "\<not> dec_sample_offset b + 2 * of_nat (fst t) \<ge> samples_per_antenna"
    by (simp add: not_le)
  from a n show "snd (fst (load_two_samples original_samples dm_rate samples_per_antenna b t)) = 0"
    by (simp add: load_two_samples_def dec_sample_offset_def Let_def)
  from a n show "snd (load_two_samples original_samples dm_rate samples_per_antenna b t)
              = [antenna_offset b + dec_sample_offset b + 2 * of_nat (fst t)]"
    by (simp add: load_two_samples_def dec_sample_offset_def antenna_offset_def Let_def)
qed

theorem original_samples_reads_in_bounds_witness:
  "set (snd (load_sample (\<lambda>i. 1) 2 8 (1, 1) (3, 0))) = {13}
   \<and> set (snd (load_two_samples (\<lambda>i. 1) 2 8 (1, 1) (2, 0))) = {14, 15}
   \<and> (\<exists>l::u32. l < 8 \<and> 13 = 1 * 8 + l \<and> unat (13::u32) < unat (1 * 8 :: u32) + unat (8::u32))
   \<and> (\<exists>l::u32. l < 8 \<and> 15 = 1 * 8 + l \<and> unat (15::u32) < unat (1 * 8 :: u32) + unat (8::u32))
   \<and> (3::u32) * 2 + 3 \<ge> 8 \<and> load_sample (\<lambda>i. 1) 2 8 (3, 1) (3, 0) = (0, [])
   \<and> (3::u32) * 2 + 2 * 1 \<ge> 8 \<and> load_two_samples (\<lambda>i. 1) 2 8 (3, 1) (1, 0) = ((0, 0), [])
   \<and> (3::u32) * 2 + 2 * 0 < 7 \<and> (3::u32) * 2 + 2 * 0 \<ge> 7 - 1
   \<and> load_two_samples (\<lambda>i. 1) 2 7 (3, 1) (0, 0) = ((1, 0), [13])"
  using original_samples_reads_in_bounds [of "\<lambda>i. 1" 2 8 "(1, 1)" "(3, 0)"]
        original_samples_reads_in_bounds [of "\<lambda>i. 1" 2 8 "(1, 1)" "(2, 0)"]
        original_samples_reads_in_bounds [of "\<lambda>i. 1" 2 8 "(3, 1)" "(3, 0)"]
        original_samples_reads_in_bounds [of "\<lambda>i. 1" 2 8 "(3, 1)" "(1, 0)"]
        original_samples_reads_in_bounds [of "\<lambda>i. 1" 2 7 "(3, 1)" "(0, 0)"]
  by (simp add: load_sample_def load_two_samples_def Let_def)

section \<open>The threads of a block and the writes of a phase\<close>

lemma set_threads: "set (threads d) = {t. fst t < dim_x d \<and> snd t < dim_y d}"
  by (auto simp: threads_def)

lemma threads_product: "threads d = map prod.swap (List.product [0..<dim_y d] [0..<dim_x d])"
  by (simp add: threads_def product_concat_map map_concat comp_def)

lemma distinct_threads: "distinct (threads d)"
  by (simp add: threads_product distinct_map distinct_product)

lemma fold_cond_upd_other:
  "a \<notin> off ` {u \<in> set ts. act u} \<Longrightarrow>
     fold (\<lambda>t m. if act t then m(off t := v t) else m) ts m a = m a"
proof (induction ts arbitrary: m)
  case Nil then show ?case by simp
next
  case (Cons u ts)
  from Cons.prems have 1: "a \<notin> off ` {u \<in> set ts. act u}" and 2: "act u \<Longrightarrow> a \<noteq> off u"
    by auto
  show ?case using Cons.IH[OF 1] 2 by simp
qed

lemma fold_cond_upd_hit:
  "t \<in> set ts \<Longrightarrow> act t \<Longrightarrow> inj_on off {u \<in> set ts. act u} \<Longrightarrow>
     fold (\<lambda>t m. if act t then m(off t := v t) else m) ts m (off t) = v t"
proof (induction ts arbitrary: m)
  case Nil then show ?case by simp
next
  case (Cons u ts)
  have inj: "inj_on off {u \<in> set ts. act u}"
    by (rule inj_on_subset[OF Cons.prems(3)]) auto
  show ?case
  proof (cases "t \<in> set ts")
    case True
    then show ?thesis using Cons.IH[OF True Cons.prems(2) inj] by simp
  next
    case False
    with Cons.prems have tu: "u = t" by simp
    have "off t \<notin> off ` {u \<in> set ts. act u}"
    proof
      assume "off t \<in> off ` {u \<in> set ts. act u}"
      then obtain w where w: "w \<in> set ts" "act w" "off w = off t" by auto
      with Cons.prems(2,3) tu have "w = t" by (auto simp: inj_on_def)
      with w False show False by simp
    qed
    then show ?thesis using tu Cons.prems(2) by (simp add: fold_cond_upd_other)
  qed
qed

declare shuffle_loop.simps [simp del]

lemma shuffle_loop_unroll:
  "shuffle_loop bd (warpSize div 2) regs =
     shuffle_step bd 1 (shuffle_step bd 2 (shuffle_step bd 4 (shuffle_step bd 8 (shuffle_step bd 16 regs))))"
  by (simp add: warpSize_def shuffle_loop.simps)

section \<open>The warp shuffle\<close>

lemma linear_id_thread_of: "linear_id bd (thread_of bd l) = l"
  by (simp add: linear_id_def thread_of_def)

text \<open>Warp \<open>w\<close> of the block: the threads of linear index \<open>32 * w + i\<close>, \<open>i < 32\<close>.\<close>

lemma shfl_down_float_warp:
  assumes i: "i < 32"
      and src: "i + delta < 32 \<Longrightarrow> shfl_active bd (32 * w + (i + delta))"
  shows "shfl_down_float bd var (thread_of bd (32 * w + i)) delta =
           (if i + delta < 32 then var (thread_of bd (32 * w + (i + delta)))
            else var (thread_of bd (32 * w + i)))"
proof -
  have lane: "(32 * w + i) mod 32 = i" using i by simp
  show ?thesis
    using src lane
    by (simp add: shfl_down_float_def Let_def warpSize_def linear_id_thread_of add.assoc)
qed

lemma shfl_down_warp:
  assumes i: "i < 32"
      and src: "i + delta < 32 \<Longrightarrow> shfl_active bd (32 * w + (i + delta))"
  shows "shfl_down bd regs (thread_of bd (32 * w + i)) delta =
           (if i + delta < 32 then regs (thread_of bd (32 * w + (i + delta)))
            else regs (thread_of bd (32 * w + i)))"
proof -
  have h: "(case (map_option Re z, map_option Im z) of
           (Some x', Some y') \<Rightarrow> Some (Complex x' y') | _ \<Rightarrow> None) = z" for z :: "cuComplex option"
    by (cases z) simp_all
  have fx: "shfl_down_float bd (\<lambda>u. map_option Re (regs u)) (thread_of bd (32 * w + i)) delta =
           (if i + delta < 32 then map_option Re (regs (thread_of bd (32 * w + (i + delta))))
            else map_option Re (regs (thread_of bd (32 * w + i))))"
    by (rule shfl_down_float_warp[OF i src])
  have fy: "shfl_down_float bd (\<lambda>u. map_option Im (regs u)) (thread_of bd (32 * w + i)) delta =
           (if i + delta < 32 then map_option Im (regs (thread_of bd (32 * w + (i + delta))))
            else map_option Im (regs (thread_of bd (32 * w + i))))"
    by (rule shfl_down_float_warp[OF i src])
  show ?thesis
  proof (cases "i + delta < 32")
    case True
    then show ?thesis unfolding shfl_down_def Let_def fx fy
      using h[of "regs (thread_of bd (32 * w + (i + delta)))"] by simp
  next
    case False
    then show ?thesis unfolding shfl_down_def Let_def fx fy
      using h[of "regs (thread_of bd (32 * w + i))"] by simp
  qed
qed

lemma shuffle_step_warp:
  assumes act: "\<And>j. j < 32 \<Longrightarrow> shfl_active bd (32 * w + j)"
      and a: "regs (thread_of bd (32 * w + i)) = Some u"
      and b: "regs (thread_of bd (32 * w + (i + delta))) = Some v"
      and d: "i + delta < 32"
  shows "shuffle_step bd delta regs (thread_of bd (32 * w + i)) = Some (u + v)"
proof -
  have i: "i < 32" using d by simp
  have "fst (thread_of bd (32 * w + i)) < 32" using act[OF i] by (simp add: shfl_active_def)
  moreover have "shfl_down bd regs (thread_of bd (32 * w + i)) delta = Some v"
    using shfl_down_warp[OF i act, of delta] b d by simp
  ultimately show ?thesis using a by (simp add: shuffle_step_def cuCaddf_opt_def)
qed

lemma shuffle_loop_warp_sum:
  assumes act: "\<And>j. j < 32 \<Longrightarrow> shfl_active bd (32 * w + j)"
      and regs: "\<And>j. j < 32 \<Longrightarrow> regs (thread_of bd (32 * w + j)) = Some (f j)"
  shows "shuffle_loop bd (warpSize div 2) regs (thread_of bd (32 * w)) = Some (\<Sum>j<32. f j)"
proof -
  note st = shuffle_step_warp[of bd w, OF act]
  let ?r1 = "shuffle_step bd 16 regs"
  let ?r2 = "shuffle_step bd 8 ?r1"
  let ?r3 = "shuffle_step bd 4 ?r2"
  let ?r4 = "shuffle_step bd 2 ?r3"
  let ?r5 = "shuffle_step bd 1 ?r4"
  let ?T = "\<lambda>j. thread_of bd (32 * w + j)"
  have r1: "?r1 (?T j) = Some (f j + f (j + 16))" if "j < 16" for j
    using that by (intro st regs) simp_all
  have r2: "?r2 (?T j) = Some (f j + f (j + 16) + (f (j + 8) + f (j + 8 + 16)))" if "j < 8" for j
    using that by (intro st r1) simp_all
  have r3: "?r3 (?T j) = Some (f j + f (j + 16) + (f (j + 8) + f (j + 8 + 16))
              + (f (j + 4) + f (j + 4 + 16) + (f (j + 4 + 8) + f (j + 4 + 8 + 16))))" if "j < 4" for j
    using that by (intro st r2) simp_all
  have r4: "?r4 (?T j) = Some (f j + f (j + 16) + (f (j + 8) + f (j + 8 + 16))
              + (f (j + 4) + f (j + 4 + 16) + (f (j + 4 + 8) + f (j + 4 + 8 + 16)))
              + (f (j + 2) + f (j + 2 + 16) + (f (j + 2 + 8) + f (j + 2 + 8 + 16))
              + (f (j + 2 + 4) + f (j + 2 + 4 + 16) + (f (j + 2 + 4 + 8) + f (j + 2 + 4 + 8 + 16)))))"
    if "j < 2" for j
    using that by (intro st r3) simp_all
  have r5: "?r5 (?T 0) = Some (f 0 + f (0 + 16) + (f (0 + 8) + f (0 + 8 + 16))
              + (f (0 + 4) + f (0 + 4 + 16) + (f (0 + 4 + 8) + f (0 + 4 + 8 + 16)))
              + (f (0 + 2) + f (0 + 2 + 16) + (f (0 + 2 + 8) + f (0 + 2 + 8 + 16))
              + (f (0 + 2 + 4) + f (0 + 2 + 4 + 16) + (f (0 + 2 + 4 + 8) + f (0 + 2 + 4 + 8 + 16))))
              + (f (0 + 1) + f (0 + 1 + 16) + (f (0 + 1 + 8) + f (0 + 1 + 8 + 16))
              + (f (0 + 1 + 4) + f (0 + 1 + 4 + 16) + (f (0 + 1 + 4 + 8) + f (0 + 1 + 4 + 8 + 16)))
              + (f (0 + 1 + 2) + f (0 + 1 + 2 + 16) + (f (0 + 1 + 2 + 8) + f (0 + 1 + 2 + 8 + 16))
              + (f (0 + 1 + 2 + 4) + f (0 + 1 + 2 + 4 + 16) + (f (0 + 1 + 2 + 4 + 8) + f (0 + 1 + 2 + 4 + 8 + 16))))))"
    by (intro st r4) simp_all
  have s: "(\<Sum>j<32. f j) = f 0 + f 1 + f 2 + f 3 + f 4 + f 5 + f 6 + f 7 + f 8 + f 9 + f 10 + f 11 + f 12
      + f 13 + f 14 + f 15 + f 16 + f 17 + f 18 + f 19 + f 20 + f 21 + f 22 + f 23 + f 24 + f 25
      + f 26 + f 27 + f 28 + f 29 + f 30 + f 31"
    by (simp add: eval_nat_numeral)
  have "?r5 (?T 0) = Some (\<Sum>j<32. f j)"
    unfolding r5 s by (simp add: eval_nat_numeral algebra_simps)
  then show ?thesis unfolding shuffle_loop_unroll by simp
qed

text \<open>Rows that are whole warps.\<close>

lemma shuffle_loop_row_sum:
  assumes bd: "32 dvd dim_x bd" "0 < dim_x bd" and ty: "ty < dim_y bd"
      and regs: "\<And>tx. tx < 32 \<Longrightarrow> regs (tx, ty) = Some (f tx)"
  shows "shuffle_loop bd (warpSize div 2) regs (0, ty) = Some (\<Sum>tx<32. f tx)"
proof -
  obtain k where k: "dim_x bd = 32 * k" using bd(1) by (auto simp: dvd_def)
  with bd(2) have k0: "0 < k" by simp
  let ?w = "ty * k"
  have T: "thread_of bd (32 * ?w + j) = (j, ty)" if "j < 32" for j
  proof -
    have e: "32 * ?w + j = j + ty * dim_x bd" using k by simp
    have "j < dim_x bd" using that k k0 by simp
    then show ?thesis by (simp only: thread_of_def e) simp
  qed
  have act: "shfl_active bd (32 * ?w + j)" if "j < 32" for j
  proof -
    have "32 * ?w + j = ty * dim_x bd + j" using k by simp
    also have "\<dots> < ty * dim_x bd + dim_x bd" using that k k0 by simp
    also have "\<dots> = Suc ty * dim_x bd" by simp
    also have "\<dots> \<le> dim_y bd * dim_x bd" using ty by (intro mult_le_mono1) simp
    finally show ?thesis using T[OF that] that by (simp add: shfl_active_def mult.commute)
  qed
  have "shuffle_loop bd (warpSize div 2) regs (thread_of bd (32 * ?w)) = Some (\<Sum>j<32. f j)"
    by (rule shuffle_loop_warp_sum[OF act]) (simp_all add: T regs)
  moreover have "thread_of bd (32 * ?w) = (0, ty)" using T[of 0] by simp
  ultimately show ?thesis by simp
qed

subsection \<open>The reduction for rows of fewer than 64 entries\<close>

lemma fold_reduce_init_data: "data (fold (reduce_init off) ts s) = data s"
  by (induction ts arbitrary: s) (simp_all add: reduce_init_def)

lemma fold_reduce_init_total:
  "total_sum (fold (reduce_init off) ts s) t = (if t \<in> set ts then data s (off t) else total_sum s t)"
proof (induction ts arbitrary: s)
  case Nil then show ?case by simp
next
  case (Cons u ts)
  show ?case by (simp add: Cons.IH) (simp add: reduce_init_def)
qed

lemma fold_const: "(\<And>t s. f t s = s) \<Longrightarrow> fold f ts s = s"
  by (induction ts) simp_all

lemma parallel_reduce_lt64:
  assumes "dim_x bd < 64"
  shows "parallel_reduce bd off d0 =
           shuffle_loop bd (warpSize div 2)
             (\<lambda>t. Some (if t \<in> set (threads bd) then d0 (off t) else 0))"
proof -
  have st: "reduce_step h bd off t s = s" if "64 \<le> h" for h t s
    using that assms by (simp add: reduce_step_def)
  have ft: "reduce_fetch bd off t s = s" for t s
    using assms by (simp add: reduce_fetch_def)
  have 1: "(\<lambda>t s. reduce_step 512 bd off t (reduce_init off t s)) = reduce_init off"
    by (intro ext) (simp add: st)
  show ?thesis
    unfolding parallel_reduce_def Let_def 1
    by (simp add: fold_const[of "reduce_step 256 bd off", OF st] fold_const[of "reduce_step 128 bd off", OF st]
          fold_const[of "reduce_step 64 bd off", OF st] fold_const[of "reduce_fetch bd off", OF ft]
          fold_reduce_init_total cong: if_cong)
qed

subsection \<open>Index arithmetic without wrap-around\<close>

lemma unat_of_nat32: "n < 2 ^ 32 \<Longrightarrow> unat (of_nat n :: u32) = n"
  by (simp add: unat_of_nat)

lemma unat_add32: "unat x + unat y < 2 ^ 32 \<Longrightarrow> unat (x + y :: u32) = unat x + unat y"
  using unat_add_lem[of x y] by simp

lemma unat_mult32: "unat x * unat y < 2 ^ 32 \<Longrightarrow> unat (x * y :: u32) = unat x * unat y"
  using unat_mult_lem[of x y] by simp

lemma write_output_index:
  "write_output dm spa gd b calc t dec =
     (if fst t = 0 then dec(output_index dm spa gd b t := calc t) else dec)"
  by (simp add: write_output_def output_index_def Let_def)

lemma output_index_eq:
  assumes gd: "dim_x gd = unat spa div unat dm" "unat dm dvd unat spa"
      and sz: "dim_y gd * unat spa < 2 ^ 32" "f * dim_x gd * dim_y gd < 2 ^ 32"
      and b: "fst b < dim_x gd" "snd b < dim_y gd" and t: "snd t < f"
  shows "output_index dm spa gd b t = snd t * dim_x gd * dim_y gd + snd b * dim_x gd + fst b"
proof -
  let ?X = "dim_x gd" and ?Y = "dim_y gd"
  have XY: "?X * ?Y \<le> f * ?X * ?Y" using t by (cases f) simp_all
  then have XY32: "?X * ?Y < 2 ^ 32" using sz(2) by linarith
  have X32: "?X < 2 ^ 32" using XY32 b(2) by (cases "?Y") (simp_all add: less_le_trans[rotated] le_less_trans[rotated])
  have Y32: "?Y < 2 ^ 32" using XY32 b(1) by (cases "?X") (simp_all add: le_less_trans[rotated])
  have tf: "snd t * ?X * ?Y \<le> (f - 1) * ?X * ?Y"
    using t by (intro mult_le_mono1) simp
  have bound: "snd t * ?X * ?Y + snd b * ?X + fst b < f * ?X * ?Y"
  proof -
    have "snd b * ?X + fst b < snd b * ?X + ?X" using b by simp
    also have "\<dots> = Suc (snd b) * ?X" by simp
    also have "\<dots> \<le> ?Y * ?X" using b by (intro mult_le_mono1) simp
    finally have "snd b * ?X + fst b < ?X * ?Y" by (simp add: mult.commute)
    moreover have "(f - 1) * ?X * ?Y + ?X * ?Y = f * ?X * ?Y" using t
      by (cases f) (simp_all add: algebra_simps)
    ultimately show ?thesis using tf by linarith
  qed
  have t32: "snd t < 2 ^ 32"
  proof -
    have "0 < ?X * ?Y" using b by simp
    then have "snd t \<le> snd t * (?X * ?Y)" by simp
    also have "\<dots> < 2 ^ 32" using bound sz(2) by (simp add: mult.assoc)
    finally show ?thesis .
  qed
  have u1: "unat (of_nat (snd t) * of_nat ?X * of_nat ?Y :: u32) = snd t * ?X * ?Y"
  proof -
    have "snd t * ?X * ?Y < 2 ^ 32" using bound sz(2) by linarith
    then have "unat (of_nat (snd t * ?X * ?Y) :: u32) = snd t * ?X * ?Y" by (rule unat_of_nat32)
    then show ?thesis by simp
  qed
  have bs: "snd b * unat spa < 2 ^ 32"
  proof -
    have "snd b * unat spa \<le> ?Y * unat spa" using b by (intro mult_le_mono1) simp
    then show ?thesis using sz(1) by linarith
  qed
  have b32: "snd b < 2 ^ 32" using b(2) Y32 by simp
  have "unat (of_nat (snd b) * spa :: u32) = snd b * unat spa"
    using bs by (simp add: unat_mult32 unat_of_nat32[OF b32])
  then have u2: "unat (of_nat (snd b) * spa div dm :: u32) = snd b * ?X"
    using gd by (simp add: unat_div div_mult_swap)
  have f32: "fst b < 2 ^ 32" using b(1) X32 by simp
  have u3: "unat (of_nat (fst b) :: u32) = fst b" by (rule unat_of_nat32[OF f32])
  have lt: "snd t * ?X * ?Y + snd b * ?X + fst b < 2 ^ 32" using bound sz(2) by linarith
  show ?thesis
    unfolding output_index_def using lt
    by (simp add: unat_add32 u1 u2 u3)
qed

lemma mixed_radix_inj:
  fixes X Y :: nat
  assumes "t * X * Y + a * X + k = t' * X * Y + a' * X + k'" "k < X" "k' < X" "a < Y" "a' < Y"
  shows "t = t' \<and> a = a' \<and> k = k'"
proof -
  have e: "k + X * (a + Y * t) = k' + X * (a' + Y * t')"
    using assms(1) by (simp add: algebra_simps)
  have "(k + X * (a + Y * t)) mod X = k" "(k' + X * (a' + Y * t')) mod X = k'"
    using assms(2,3) by simp_all
  with e have k: "k = k'" by simp
  have "(k + X * (a + Y * t)) div X = a + Y * t" "(k' + X * (a' + Y * t')) div X = a' + Y * t'"
    using assms(2,3) by simp_all
  with e have e2: "a + Y * t = a' + Y * t'" by simp
  have "(a + Y * t) mod Y = a" "(a' + Y * t') mod Y = a'" using assms(4,5) by simp_all
  with e2 have a: "a = a'" by simp
  have "(a + Y * t) div Y = t" "(a' + Y * t') div Y = t'" using assms(4,5) by simp_all
  with e2 have "t = t'" by simp
  with k a show ?thesis by simp
qed

lemma fold_upd_hit:
  "t \<in> set ts \<Longrightarrow> inj_on off (set ts) \<Longrightarrow> fold (\<lambda>t m. m(off t := v t)) ts m (off t) = v t"
  using fold_cond_upd_hit[of t ts "\<lambda>t. True" off v m] by simp

lemma fold_product:
  "fold (\<lambda>b m. fold (g b) ts m) bs m = fold (\<lambda>p. g (fst p) (snd p)) (List.product bs ts) m"
  by (induction bs arbitrary: m) (simp_all add: fold_map comp_def)

lemma fold_fold_cond_upd_hit:
  assumes "b \<in> set bs" "t \<in> set ts" "act t"
      and inj: "inj_on (\<lambda>p. off (fst p) (snd p)) {p. fst p \<in> set bs \<and> snd p \<in> set ts \<and> act (snd p)}"
  shows "fold (\<lambda>b m. fold (\<lambda>t m. if act t then m(off b t := v b t) else m) ts m) bs m (off b t) = v b t"
proof -
  have s: "{u \<in> set bs \<times> set ts. act (snd u)} = {p. fst p \<in> set bs \<and> snd p \<in> set ts \<and> act (snd p)}"
    by auto
  have "fold (\<lambda>p m. if act (snd p) then m(off (fst p) (snd p) := v (fst p) (snd p)) else m)
          (List.product bs ts) m (off (fst (b, t)) (snd (b, t))) = v (fst (b, t)) (snd (b, t))"
    by (rule fold_cond_upd_hit[where act = "\<lambda>p. act (snd p)" and off = "\<lambda>p. off (fst p) (snd p)"
          and v = "\<lambda>p. v (fst p) (snd p)"])
       (use assms in \<open>simp_all add: s\<close>)
  then show ?thesis by (simp add: fold_product)
qed

text \<open>The cell of the output written by thread \<open>(0, ty)\<close> of block \<open>(k, a)\<close> holds that thread's result.\<close>

lemma write_outputs_cell:
  assumes gd: "dim_x gd = unat spa div unat dm" "unat dm dvd unat spa"
      and sz: "dim_y gd * unat spa < 2 ^ 32" "dim_y bd * dim_x gd * dim_y gd < 2 ^ 32"
      and b: "k < dim_x gd" "a < dim_y gd" and t: "ty < dim_y bd" and bd: "0 < dim_x bd"
  shows "fold (\<lambda>b. fold (write_output dm spa gd b (calc b)) (threads bd)) (threads gd) dec
           (ty * dim_x gd * dim_y gd + a * dim_x gd + k) = calc (k, a) (0, ty)"
proof -
  let ?oi = "output_index dm spa gd"
  have oi: "?oi b' t' = snd t' * dim_x gd * dim_y gd + snd b' * dim_x gd + fst b'"
    if "b' \<in> set (threads gd)" "t' \<in> set (threads bd)" for b' t'
    using that by (intro output_index_eq[OF gd sz]) (simp_all add: set_threads)
  have inj: "inj_on (\<lambda>p. ?oi (fst p) (snd p))
               {p. fst p \<in> set (threads gd) \<and> snd p \<in> set (threads bd) \<and> fst (snd p) = 0}"
  proof (rule inj_onI)
    fix p q
    assume p: "p \<in> {p. fst p \<in> set (threads gd) \<and> snd p \<in> set (threads bd) \<and> fst (snd p) = 0}"
       and q: "q \<in> {p. fst p \<in> set (threads gd) \<and> snd p \<in> set (threads bd) \<and> fst (snd p) = 0}"
       and e: "?oi (fst p) (snd p) = ?oi (fst q) (snd q)"
    from p q e have
      "snd (snd p) * dim_x gd * dim_y gd + snd (fst p) * dim_x gd + fst (fst p)
         = snd (snd q) * dim_x gd * dim_y gd + snd (fst q) * dim_x gd + fst (fst q)"
      by (simp add: oi)
    from mixed_radix_inj[OF this] p q
    have "snd (snd p) = snd (snd q) \<and> snd (fst p) = snd (fst q) \<and> fst (fst p) = fst (fst q)"
      by (simp add: set_threads)
    with p q show "p = q" by (auto simp: prod_eq_iff)
  qed
  have kb: "(k, a) \<in> set (threads gd)" "(0, ty) \<in> set (threads bd)"
    using b t bd by (simp_all add: set_threads)
  have "fold (\<lambda>b m. fold (\<lambda>t m. if fst t = 0 then m(?oi b t := calc b t) else m) (threads bd) m)
          (threads gd) dec (?oi (k, a) (0, ty)) = calc (k, a) (0, ty)"
    by (rule fold_fold_cond_upd_hit[OF kb _ inj]) simp
  moreover have "write_output dm spa gd b' (calc b')
      = (\<lambda>t m. if fst t = 0 then m(?oi b' t := calc b' t) else m)" for b'
    by (intro ext) (simp add: write_output_index)
  ultimately show ?thesis using oi[OF kb] by simp
qed

lemma inj_on_tap_offset1024: "inj_on (tap_offset1024 bd) (set (threads bd))"
proof (rule inj_onI)
  fix t u assume t: "t \<in> set (threads bd)" and u: "u \<in> set (threads bd)"
    and e: "tap_offset1024 bd t = tap_offset1024 bd u"
  from e have e': "fst t + dim_x bd * snd t = fst u + dim_x bd * snd u"
    by (simp add: tap_offset1024_def mult.commute)
  have "(fst t + dim_x bd * snd t) mod dim_x bd = fst t" "(fst u + dim_x bd * snd u) mod dim_x bd = fst u"
    using t u by (simp_all add: set_threads)
  with e' have 1: "fst t = fst u" by simp
  have "(fst t + dim_x bd * snd t) div dim_x bd = snd t" "(fst u + dim_x bd * snd u) div dim_x bd = snd u"
    using t u by (simp_all add: set_threads)
  with e' have "snd t = snd u" by simp
  with 1 show "t = u" by (simp add: prod_eq_iff)
qed

lemma store_products_cell:
  assumes "t \<in> set (threads bd)"
  shows "fold (store_product orig taps dm spa bd b) (threads bd) sh (tap_offset1024 bd t)
           = fst (load_sample orig dm spa b t) * taps (tap_offset1024 bd t)"
proof -
  have "store_product orig taps dm spa bd b
          = (\<lambda>t m. m(tap_offset1024 bd t := fst (load_sample orig dm spa b t) * taps (tap_offset1024 bd t)))"
    by (intro ext) (simp add: store_product_def Let_def)
  then show ?thesis
    using fold_upd_hit[OF assms inj_on_tap_offset1024] by simp
qed

lemma load_sample_value:
  assumes "fst b < 2 ^ 32" "snd b < 2 ^ 32"
      and "fst b * unat dm + fst t < 2 ^ 32" "snd b * unat spa + unat spa \<le> 2 ^ 32"
  shows "fst (load_sample orig dm spa b t) =
           (if unat spa \<le> fst b * unat dm + fst t then 0
            else orig (snd b * unat spa + fst b * unat dm + fst t))"
proof -
  have t32: "fst t < 2 ^ 32" using assms(3) by simp
  have kd: "unat (of_nat (fst b) * dm :: u32) = fst b * unat dm"
    using assms(1,3) by (simp add: unat_mult32 unat_of_nat32)
  have l: "unat (of_nat (fst b) * dm + of_nat (fst t) :: u32) = fst b * unat dm + fst t"
    using assms(3) t32 by (simp add: unat_add32 kd unat_of_nat32)
  have "snd b * unat spa < 2 ^ 32"
  proof (cases "unat spa = 0")
    case True then show ?thesis by simp
  next
    case False
    then have "1 \<le> unat spa" by simp
    with assms(4) show ?thesis by linarith
  qed
  then have as: "unat (of_nat (snd b) * spa :: u32) = snd b * unat spa"
    using assms(2) by (simp add: unat_mult32 unat_of_nat32)
  show ?thesis
  proof (cases "unat spa \<le> fst b * unat dm + fst t")
    case True
    then have "spa \<le> of_nat (fst b) * dm + of_nat (fst t)" by (simp add: word_le_nat_alt l)
    then show ?thesis using True by (simp add: load_sample_def Let_def)
  next
    case False
    then have n: "\<not> spa \<le> of_nat (fst b) * dm + of_nat (fst t)" by (simp add: word_le_nat_alt l)
    have "unat (of_nat (snd b) * spa + (of_nat (fst b) * dm + of_nat (fst t)) :: u32)
            = snd b * unat spa + (fst b * unat dm + fst t)"
      using False assms(4) by (simp add: unat_add32 l as)
    then show ?thesis using False n by (simp add: load_sample_def Let_def add.assoc)
  qed
qed


lemma decimate1024_cell:
  assumes gd: "dim_x gd = unat spa div unat dm" "unat dm dvd unat spa"
      and sz: "dim_y gd * unat spa < 2 ^ 32" "dim_y bd * dim_x gd * dim_y gd < 2 ^ 32"
      and b: "k < dim_x gd" "a < dim_y gd" and t: "ty < dim_y bd" and bd: "0 < dim_x bd"
  shows "decimate1024 gd bd sh orig dec taps dm spa (ty * dim_x gd * dim_y gd + a * dim_x gd + k)
           = parallel_reduce bd (tap_offset1024 bd)
               (fold (store_product orig taps dm spa bd (k, a)) (threads bd) (sh (k, a))) (0, ty)"
proof -
  have "decimate1024_block orig taps dm spa gd bd sh
          = (\<lambda>b. fold (write_output dm spa gd b
                (\<lambda>t. parallel_reduce bd (tap_offset1024 bd)
                   (fold (store_product orig taps dm spa bd b) (threads bd) (sh b)) t)) (threads bd))"
    by (intro ext) (simp add: decimate1024_block_def Let_def)
  then show ?thesis
    unfolding decimate1024_def by (simp only: write_outputs_cell[OF assms])
qed

lemma decimate2048_cell:
  assumes gd: "dim_x gd = unat spa div unat dm" "unat dm dvd unat spa"
      and sz: "dim_y gd * unat spa < 2 ^ 32" "dim_y bd * dim_x gd * dim_y gd < 2 ^ 32"
      and b: "k < dim_x gd" "a < dim_y gd" and t: "ty < dim_y bd" and bd: "0 < dim_x bd"
  shows "decimate2048 gd bd sh orig dec taps dm spa (ty * dim_x gd * dim_y gd + a * dim_x gd + k)
           = parallel_reduce bd (tap_offset2048 bd)
               (fold (store_two_products orig taps dm spa bd (k, a)) (threads bd) (sh (k, a))) (0, ty)"
proof -
  have "decimate2048_block orig taps dm spa gd bd sh
          = (\<lambda>b. fold (write_output dm spa gd b
                (\<lambda>t. parallel_reduce bd (tap_offset2048 bd)
                   (fold (store_two_products orig taps dm spa bd b) (threads bd) (sh b)) t)) (threads bd))"
    by (intro ext) (simp add: decimate2048_block_def Let_def)
  then show ?thesis
    unfolding decimate2048_def by (simp only: write_outputs_cell[OF assms])
qed

subsection \<open>The large kernel when every product is zero\<close>

lemma shuffle_step_warp_const:
  assumes act: "\<And>j. j < 32 \<Longrightarrow> shfl_active bd (32 * w + j)"
      and regs: "\<And>j. j < 32 \<Longrightarrow> regs (thread_of bd (32 * w + j)) = Some c"
      and i: "i < 32"
  shows "shuffle_step bd delta regs (thread_of bd (32 * w + i)) = Some (c + c)"
proof -
  have "fst (thread_of bd (32 * w + i)) < 32" using act[OF i] by (simp add: shfl_active_def)
  moreover have "shfl_down bd regs (thread_of bd (32 * w + i)) delta = Some c"
    using shfl_down_warp[OF i act, of delta] regs i by simp
  ultimately show ?thesis using regs[OF i] by (simp add: shuffle_step_def cuCaddf_opt_def)
qed

lemma shuffle_loop_warp_zero:
  assumes act: "\<And>j. j < 32 \<Longrightarrow> shfl_active bd (32 * w + j)"
      and regs: "\<And>j. j < 32 \<Longrightarrow> regs (thread_of bd (32 * w + j)) = Some 0"
      and i: "i < 32"
  shows "shuffle_loop bd (warpSize div 2) regs (thread_of bd (32 * w + i)) = Some 0"
proof -
  have st: "shuffle_step bd delta r (thread_of bd (32 * w + j)) = Some 0"
    if "\<And>j. j < 32 \<Longrightarrow> r (thread_of bd (32 * w + j)) = Some 0" "j < 32" for r delta j
    using shuffle_step_warp_const[of bd w r 0 j delta, OF act that] by simp
  show ?thesis
    unfolding shuffle_loop_unroll by (intro st regs i)
qed

lemma store_two_products_zero:
  assumes "fst (fst (load_two_samples orig dm spa b t)) * taps (tap_offset2048 bd t) = 0"
      and "snd (fst (load_two_samples orig dm spa b t)) * taps (tap_offset2048 bd t + 1) = 0"
  shows "store_two_products orig taps dm spa bd b t m a =
           (if a = tap_offset2048 bd t \<or> a = tap_offset2048 bd t + 1 then 0 else m a)"
proof -
  have "store_two_products orig taps dm spa bd b t m a =
          (if a = tap_offset2048 bd t then
             fst (fst (load_two_samples orig dm spa b t)) * taps (tap_offset2048 bd t)
             + snd (fst (load_two_samples orig dm spa b t)) * taps (tap_offset2048 bd t + 1)
           else if a = tap_offset2048 bd t + 1 then
             snd (fst (load_two_samples orig dm spa b t)) * taps (tap_offset2048 bd t + 1)
           else m a)"
    by (simp add: store_two_products_def Let_def split_beta)
  then show ?thesis by (simp only: assms) simp
qed

lemma fold_store_two_products_zero:
  assumes "\<And>t. t \<in> set ts \<Longrightarrow>
             fst (fst (load_two_samples orig dm spa b t)) * taps (tap_offset2048 bd t) = 0
           \<and> snd (fst (load_two_samples orig dm spa b t)) * taps (tap_offset2048 bd t + 1) = 0"
      and "m a = 0 \<or> (\<exists>t \<in> set ts. a = tap_offset2048 bd t \<or> a = tap_offset2048 bd t + 1)"
  shows "fold (store_two_products orig taps dm spa bd b) ts m a = 0"
  using assms
proof (induction ts arbitrary: m)
  case Nil then show ?case by simp
next
  case (Cons u ts)
  have z: "store_two_products orig taps dm spa bd b u m a =
           (if a = tap_offset2048 bd u \<or> a = tap_offset2048 bd u + 1 then 0 else m a)"
    using Cons.prems(1)[of u] by (intro store_two_products_zero) simp_all
  have "store_two_products orig taps dm spa bd b u m a = 0
          \<or> (\<exists>t \<in> set ts. a = tap_offset2048 bd t \<or> a = tap_offset2048 bd t + 1)"
    using Cons.prems(2) z by auto
  then show ?case using Cons.IH[of "store_two_products orig taps dm spa bd b u m"] Cons.prems(1)
    by simp
qed

lemma load_two_samples_value:
  assumes "fst b < 2 ^ 32" "snd b < 2 ^ 32"
      and "fst b * unat dm + 2 * fst t + 1 < 2 ^ 32" "snd b * unat spa + unat spa \<le> 2 ^ 32"
  shows "fst (load_two_samples orig dm spa b t) =
           (if unat spa \<le> fst b * unat dm + 2 * fst t then (0, 0)
            else if unat spa - 1 \<le> fst b * unat dm + 2 * fst t then
              (orig (snd b * unat spa + fst b * unat dm + 2 * fst t), 0)
            else (orig (snd b * unat spa + fst b * unat dm + 2 * fst t),
                  orig (snd b * unat spa + fst b * unat dm + 2 * fst t + 1)))"
proof -
  let ?L = "fst b * unat dm + 2 * fst t"
  let ?l = "of_nat (fst b) * dm + 2 * of_nat (fst t) :: u32"
  have t32: "2 * fst t < 2 ^ 32" using assms(3) by simp
  have kd: "unat (of_nat (fst b) * dm :: u32) = fst b * unat dm"
    using assms(1,3) by (simp add: unat_mult32 unat_of_nat32)
  have tt: "unat (2 * of_nat (fst t) :: u32) = 2 * fst t"
  proof -
    have "unat (of_nat (2 * fst t) :: u32) = 2 * fst t" using t32 by (rule unat_of_nat32)
    then show ?thesis by simp
  qed
  have l: "unat ?l = ?L" using assms(3) by (simp add: unat_add32 kd tt)
  have "snd b * unat spa < 2 ^ 32"
  proof (cases "unat spa = 0")
    case True then show ?thesis by simp
  next
    case False
    then have "1 \<le> unat spa" by simp
    with assms(4) show ?thesis by linarith
  qed
  then have as: "unat (of_nat (snd b) * spa :: u32) = snd b * unat spa"
    using assms(2) by (simp add: unat_mult32 unat_of_nat32)
  show ?thesis
  proof (cases "unat spa \<le> ?L")
    case True
    then have "spa \<le> ?l" by (simp add: word_le_nat_alt l)
    then show ?thesis using True by (simp add: load_two_samples_def Let_def)
  next
    case False
    then have n: "\<not> spa \<le> ?l" by (simp add: word_le_nat_alt l)
    from False have s0: "spa \<noteq> 0" by auto
    have s1: "unat (spa - 1) = unat spa - 1" using s0 by (simp add: unat_minus_one)
    have f0: "unat (of_nat (snd b) * spa + ?l) = snd b * unat spa + ?L"
      using False assms(4) by (simp add: unat_add32 l as)
    show ?thesis
    proof (cases "unat spa - 1 \<le> ?L")
      case True
      then have "spa - 1 \<le> ?l" by (simp add: word_le_nat_alt l s1)
      then show ?thesis using False n True f0 by (simp add: load_two_samples_def Let_def add.assoc)
    next
      case F2: False
      then have n2: "\<not> spa - 1 \<le> ?l" by (simp add: word_le_nat_alt l s1)
      have "unat (of_nat (snd b) * spa + ?l + 1) = snd b * unat spa + ?L + 1"
        using F2 False assms(4) f0 by (simp add: unat_add32)
      then show ?thesis using False n F2 n2 f0 by (simp add: load_two_samples_def Let_def add.assoc)
    qed
  qed
qed



section \<open>The halving steps of the reduction\<close>

lemma fold_reduce_step_total_other:
  "\<not> (t \<in> set ts \<and> dim_x bd \<ge> 2 * h \<and> fst t < h) \<Longrightarrow>
     total_sum (fold (reduce_step h bd off) ts s) t = total_sum s t"
proof (induction ts arbitrary: s)
  case Nil then show ?case by simp
next
  case (Cons u ts)
  from Cons.prems have 1: "\<not> (t \<in> set ts \<and> dim_x bd \<ge> 2 * h \<and> fst t < h)"
    and 2: "total_sum (reduce_step h bd off u s) t = total_sum s t"
    by (auto simp: reduce_step_def Let_def)
  show ?case using Cons.IH[OF 1] 2 by simp
qed

lemma fold_reduce_step_data_other:
  "c \<notin> off ` {u \<in> set ts. fst u < h} \<Longrightarrow>
     data (fold (reduce_step h bd off) ts s) c = data s c"
proof (induction ts arbitrary: s)
  case Nil then show ?case by simp
next
  case (Cons u ts)
  from Cons.prems have 1: "c \<notin> off ` {u \<in> set ts. fst u < h}"
    and 2: "data (reduce_step h bd off u s) c = data s c"
    by (auto simp: reduce_step_def Let_def)
  show ?case using Cons.IH[OF 1] 2 by simp
qed

lemma fold_reduce_step_hit:
  assumes "distinct ts" "inj_on off (set ts)"
      and "\<And>t u. t \<in> set ts \<Longrightarrow> fst t < h \<Longrightarrow> u \<in> set ts \<Longrightarrow> fst u < h \<Longrightarrow> off t + h \<noteq> off u"
      and "t \<in> set ts" "fst t < h" "dim_x bd \<ge> 2 * h"
  shows "total_sum (fold (reduce_step h bd off) ts s) t = total_sum s t + data s (off t + h)
         \<and> data (fold (reduce_step h bd off) ts s) (off t) = total_sum s t + data s (off t + h)"
  using assms
proof (induction ts arbitrary: s)
  case Nil
  then show ?case by simp
next
  case (Cons u ts)
  have d: "distinct ts" and i: "inj_on off (set ts)"
    and r: "\<And>t u. t \<in> set ts \<Longrightarrow> fst t < h \<Longrightarrow> u \<in> set ts \<Longrightarrow> fst u < h \<Longrightarrow> off t + h \<noteq> off u"
    using Cons.prems(1-3) by (auto simp: inj_on_def)
  let ?s1 = "reduce_step h bd off u s"
  show ?case
  proof (cases "t = u")
    case True
    then have n: "t \<notin> set ts" using Cons.prems(1) by simp
    have v: "total_sum ?s1 t = total_sum s t + data s (off t + h)"
        "data ?s1 (off t) = total_sum s t + data s (off t + h)"
      using True Cons.prems(5,6) by (simp_all add: reduce_step_def Let_def)
    have "total_sum (fold (reduce_step h bd off) ts ?s1) t = total_sum ?s1 t"
      by (rule fold_reduce_step_total_other) (simp add: n)
    moreover have "off t \<notin> off ` {u \<in> set ts. fst u < h}"
      using n Cons.prems(2,4) by (auto simp: inj_on_def)
    then have "data (fold (reduce_step h bd off) ts ?s1) (off t) = data ?s1 (off t)"
      by (rule fold_reduce_step_data_other)
    ultimately show ?thesis using v by simp
  next
    case False
    with Cons.prems(4) have m: "t \<in> set ts" by simp
    have "off t + h \<noteq> off u" if "fst u < h"
      using Cons.prems(3)[of t u] Cons.prems(4,5) that by simp
    then have e: "data ?s1 (off t + h) = data s (off t + h)" "total_sum ?s1 t = total_sum s t"
      using False by (auto simp: reduce_step_def Let_def)
    from Cons.IH[OF d i r m Cons.prems(5,6), of ?s1] e show ?thesis by simp
  qed
qed

lemma sum_even_odd:
  fixes g :: "nat \<Rightarrow> cuComplex"
  shows "(\<Sum>j<2 * n. g j) = (\<Sum>j<n. g (2 * j)) + (\<Sum>j<n. g (2 * j + 1))"
  by (induction n) (simp_all add: algebra_simps)

lemma strided_sum_halve:
  assumes "0 < h"
  shows "strided_sum d base (2 * h) n + strided_sum d (base + h) (2 * h) n = strided_sum d base h (2 * n)"
proof -
  have "strided_sum d base h (2 * n) = (\<Sum>j<n. d (base + (2 * j) * h)) + (\<Sum>j<n. d (base + (2 * j + 1) * h))"
    unfolding strided_sum_def by (rule sum_even_odd)
  also have "(\<Sum>j<n. d (base + (2 * j) * h)) = strided_sum d base (2 * h) n"
    unfolding strided_sum_def by (simp add: mult_ac)
  also have "(\<Sum>j<n. d (base + (2 * j + 1) * h)) = strided_sum d (base + h) (2 * h) n"
    unfolding strided_sum_def by (simp add: algebra_simps)
  finally show ?thesis by simp
qed

lemma tap_offset1024_shift:
  assumes "t \<in> set (threads bd)" "fst t < h" "u \<in> set (threads bd)" "fst u < h" "2 * h \<le> dim_x bd"
  shows "tap_offset1024 bd t + h \<noteq> tap_offset1024 bd u"
proof
  assume e: "tap_offset1024 bd t + h = tap_offset1024 bd u"
  have m: "(fst t + h, snd t) \<in> set (threads bd)" using assms by (simp add: set_threads)
  have "tap_offset1024 bd (fst t + h, snd t) = tap_offset1024 bd u"
    using e by (simp add: tap_offset1024_def)
  from inj_onD[OF inj_on_tap_offset1024 this m assms(3)] assms(4) show False by auto
qed

lemma reduce_step_reduced_to:
  assumes h: "0 < h" "2 * h dvd dim_x bd" "0 < dim_x bd"
      and inv: "reduced_to (2 * h) d bd s"
  shows "reduced_to h d bd (fold (reduce_step h bd (tap_offset1024 bd)) (threads bd) s)"
  unfolding reduced_to_def
proof (intro allI impI)
  fix ty tx assume ty: "ty < dim_y bd" and tx: "tx < h"
  let ?N = "dim_x bd"
  from h have N: "2 * h \<le> ?N" by (auto dest: dvd_imp_le)
  have t: "(tx, ty) \<in> set (threads bd)" using ty tx N by (simp add: set_threads)
  have o: "tap_offset1024 bd (tx, ty) = ty * ?N + tx" by (simp add: tap_offset1024_def)
  have "total_sum (fold (reduce_step h bd (tap_offset1024 bd)) (threads bd) s) (tx, ty)
             = total_sum s (tx, ty) + data s (tap_offset1024 bd (tx, ty) + h)
        \<and> data (fold (reduce_step h bd (tap_offset1024 bd)) (threads bd) s) (tap_offset1024 bd (tx, ty))
             = total_sum s (tx, ty) + data s (tap_offset1024 bd (tx, ty) + h)"
  proof (rule fold_reduce_step_hit)
    show "distinct (threads bd)" by (rule distinct_threads)
    show "inj_on (tap_offset1024 bd) (set (threads bd))" by (rule inj_on_tap_offset1024)
    show "tap_offset1024 bd t + h \<noteq> tap_offset1024 bd u"
      if "t \<in> set (threads bd)" "fst t < h" "u \<in> set (threads bd)" "fst u < h" for t u
      using that N by (rule tap_offset1024_shift)
    show "(tx, ty) \<in> set (threads bd)" by (rule t)
    show "fst (tx, ty) < h" using tx by simp
    show "2 * h \<le> dim_x bd" by (rule N)
  qed
  then have r: "total_sum (fold (reduce_step h bd (tap_offset1024 bd)) (threads bd) s) (tx, ty)
             = total_sum s (tx, ty) + data s (ty * ?N + tx + h)"
          "data (fold (reduce_step h bd (tap_offset1024 bd)) (threads bd) s) (ty * ?N + tx)
             = total_sum s (tx, ty) + data s (ty * ?N + tx + h)"
    by (simp_all add: o)
  have txh: "tx + h < 2 * h" using tx by simp
  note i1 = inv[unfolded reduced_to_def, rule_format, OF ty]
  have a: "total_sum s (tx, ty) = strided_sum d (ty * ?N + tx) (2 * h) (?N div (2 * h))"
    using i1[of tx] tx by simp
  have "data s (ty * ?N + (tx + h)) = strided_sum d (ty * ?N + (tx + h)) (2 * h) (?N div (2 * h))"
    using i1[OF txh] by simp
  then have b: "data s (ty * ?N + tx + h) = strided_sum d (ty * ?N + tx + h) (2 * h) (?N div (2 * h))"
    by (simp only: add.assoc)
  from h(2) obtain k where k: "?N = 2 * h * k" by (auto simp: dvd_def)
  have n: "?N div h = 2 * (?N div (2 * h))"
    using h(1) by (simp add: k)
  have "total_sum s (tx, ty) + data s (ty * ?N + tx + h) = strided_sum d (ty * ?N + tx) h (?N div h)"
    unfolding a b n by (rule strided_sum_halve[OF h(1)])
  with r show "total_sum (fold (reduce_step h bd (tap_offset1024 bd)) (threads bd) s) (tx, ty)
                 = strided_sum d (ty * ?N + tx) h (?N div h)
               \<and> data (fold (reduce_step h bd (tap_offset1024 bd)) (threads bd) s) (ty * ?N + tx)
                 = strided_sum d (ty * ?N + tx) h (?N div h)"
    by simp
qed


section \<open>The first step and the fetch from the second warp\<close>

lemma fold_init_step_total_other:
  "t \<notin> set ts \<Longrightarrow>
     total_sum (fold (\<lambda>t s. reduce_step h bd off t (reduce_init off t s)) ts s) t = total_sum s t"
proof (induction ts arbitrary: s)
  case Nil then show ?case by simp
next
  case (Cons u ts)
  from Cons.prems have 1: "t \<notin> set ts"
    and 2: "total_sum (reduce_step h bd off u (reduce_init off u s)) t = total_sum s t"
    by (auto simp: reduce_step_def reduce_init_def Let_def)
  show ?case using Cons.IH[OF 1] 2 by simp
qed

lemma fold_init_step_data_other:
  "c \<notin> off ` {u \<in> set ts. fst u < h} \<Longrightarrow>
     data (fold (\<lambda>t s. reduce_step h bd off t (reduce_init off t s)) ts s) c = data s c"
proof (induction ts arbitrary: s)
  case Nil then show ?case by simp
next
  case (Cons u ts)
  from Cons.prems have 1: "c \<notin> off ` {u \<in> set ts. fst u < h}"
    and 2: "data (reduce_step h bd off u (reduce_init off u s)) c = data s c"
    by (auto simp: reduce_step_def reduce_init_def Let_def)
  show ?case using Cons.IH[OF 1] 2 by simp
qed

lemma fold_init_step_hit:
  assumes "distinct ts" "inj_on off (set ts)"
      and "\<And>t u. t \<in> set ts \<Longrightarrow> fst t < h \<Longrightarrow> u \<in> set ts \<Longrightarrow> fst u < h \<Longrightarrow> off t + h \<noteq> off u"
      and "t \<in> set ts" "fst t < h" "dim_x bd \<ge> 2 * h"
  shows "total_sum (fold (\<lambda>t s. reduce_step h bd off t (reduce_init off t s)) ts s) t
           = data s (off t) + data s (off t + h)
         \<and> data (fold (\<lambda>t s. reduce_step h bd off t (reduce_init off t s)) ts s) (off t)
           = data s (off t) + data s (off t + h)"
  using assms
proof (induction ts arbitrary: s)
  case Nil
  then show ?case by simp
next
  case (Cons u ts)
  have d: "distinct ts" and i: "inj_on off (set ts)"
    and r: "\<And>t u. t \<in> set ts \<Longrightarrow> fst t < h \<Longrightarrow> u \<in> set ts \<Longrightarrow> fst u < h \<Longrightarrow> off t + h \<noteq> off u"
    using Cons.prems(1-3) by (auto simp: inj_on_def)
  let ?f = "\<lambda>t s. reduce_step h bd off t (reduce_init off t s)"
  let ?s1 = "?f u s"
  show ?case
  proof (cases "t = u")
    case True
    then have n: "t \<notin> set ts" using Cons.prems(1) by simp
    have v: "total_sum ?s1 t = data s (off t) + data s (off t + h)"
        "data ?s1 (off t) = data s (off t) + data s (off t + h)"
      using True Cons.prems(5,6) by (simp_all add: reduce_step_def reduce_init_def Let_def)
    have "total_sum (fold ?f ts ?s1) t = total_sum ?s1 t"
      by (rule fold_init_step_total_other) (rule n)
    moreover have "off t \<notin> off ` {u \<in> set ts. fst u < h}"
      using n Cons.prems(2,4) by (auto simp: inj_on_def)
    then have "data (fold ?f ts ?s1) (off t) = data ?s1 (off t)"
      by (rule fold_init_step_data_other)
    ultimately show ?thesis using v by simp
  next
    case False
    with Cons.prems(4) have m: "t \<in> set ts" by simp
    have 1: "off t + h \<noteq> off u" if "fst u < h"
      using Cons.prems(3)[of t u] Cons.prems(4,5) that by simp
    have 2: "off t \<noteq> off u"
      using Cons.prems(2,4) False by (auto simp: inj_on_def)
    have e: "data ?s1 (off t + h) = data s (off t + h)" "data ?s1 (off t) = data s (off t)"
      using 1 2 by (auto simp: reduce_step_def reduce_init_def Let_def)
    from Cons.IH[OF d i r m Cons.prems(5,6), of ?s1] e show ?thesis by simp
  qed
qed

lemma fold_reduce_fetch_data: "data (fold (reduce_fetch bd off) ts s) = data s"
  by (induction ts arbitrary: s) (simp_all add: reduce_fetch_def Let_def)

lemma fold_reduce_fetch_total:
  "distinct ts \<Longrightarrow>
   total_sum (fold (reduce_fetch bd off) ts s) t =
     (if t \<in> set ts \<and> fst t < 32 \<and> dim_x bd \<ge> 64 then total_sum s t + data s (off t + 32)
      else total_sum s t)"
proof (induction ts arbitrary: s)
  case Nil then show ?case by simp
next
  case (Cons u ts)
  then have d: "distinct ts" and n: "u \<notin> set ts" by simp_all
  show ?case
    using n by (simp add: Cons.IH[OF d]) (auto simp: reduce_fetch_def Let_def)
qed

lemma strided_sum_one: "strided_sum d base a 1 = d base"
  by (simp add: strided_sum_def)

lemma sum_split_shift:
  fixes g :: "nat \<Rightarrow> cuComplex"
  shows "(\<Sum>i<m + a. g i) = (\<Sum>i<m. g i) + (\<Sum>tx<a. g (m + tx))"
  by (induction a) (simp_all add: algebra_simps)

lemma sum_strided_sum:
  "(\<Sum>tx<a. strided_sum d (base + tx) a n) = (\<Sum>i<a * n. d (base + i))"
proof (induction n)
  case 0
  then show ?case by (simp add: strided_sum_def)
next
  case (Suc n)
  have 1: "(\<Sum>tx<a. strided_sum d (base + tx) a (Suc n))
          = (\<Sum>tx<a. strided_sum d (base + tx) a n) + (\<Sum>tx<a. d (base + tx + n * a))"
    by (simp add: strided_sum_def sum.distrib)
  have 2: "(\<Sum>tx<a. d (base + tx + n * a)) = (\<Sum>tx<a. d (base + (a * n + tx)))"
    by (simp add: algebra_simps)
  have 3: "(\<Sum>i<a * n + a. d (base + i)) = (\<Sum>i<a * n. d (base + i)) + (\<Sum>tx<a. d (base + (a * n + tx)))"
    by (rule sum_split_shift)
  have 4: "a * Suc n = a * n + a" by simp
  show ?case unfolding 1 2 4 3 Suc.IH by (rule refl)
qed


section \<open>The reduction of rows of 32 entries or more\<close>

lemma strided_sum_two: "strided_sum d base a 2 = d base + d (base + a)"
  by (simp add: strided_sum_def numeral_2_eq_2)

lemma init_phase_reduced_to:
  assumes N: "dim_x bd \<in> {32, 64, 128, 256, 512, 1024}"
  shows "reduced_to (min (dim_x bd) 512) d bd
           (fold (\<lambda>t s. reduce_step 512 bd (tap_offset1024 bd) t (reduce_init (tap_offset1024 bd) t s))
              (threads bd) \<lparr>data = d, total_sum = (\<lambda>t. 0)\<rparr>)"
proof (cases "dim_x bd = 1024")
  case True
  let ?s0 = "\<lparr>data = d, total_sum = (\<lambda>t. 0)\<rparr>"
  let ?f = "\<lambda>t s. reduce_step 512 bd (tap_offset1024 bd) t (reduce_init (tap_offset1024 bd) t s)"
  have m: "min (dim_x bd) 512 = 512" using True by simp
  show ?thesis
    unfolding m reduced_to_def
  proof (intro allI impI)
    fix ty tx assume ty: "ty < dim_y bd" and tx: "tx < (512::nat)"
    have t: "(tx, ty) \<in> set (threads bd)" using ty tx True by (simp add: set_threads)
    have o: "tap_offset1024 bd (tx, ty) = ty * dim_x bd + tx" by (simp add: tap_offset1024_def)
    have "total_sum (fold ?f (threads bd) ?s0) (tx, ty)
             = data ?s0 (tap_offset1024 bd (tx, ty)) + data ?s0 (tap_offset1024 bd (tx, ty) + 512)
        \<and> data (fold ?f (threads bd) ?s0) (tap_offset1024 bd (tx, ty))
             = data ?s0 (tap_offset1024 bd (tx, ty)) + data ?s0 (tap_offset1024 bd (tx, ty) + 512)"
    proof (rule fold_init_step_hit)
      show "distinct (threads bd)" by (rule distinct_threads)
      show "inj_on (tap_offset1024 bd) (set (threads bd))" by (rule inj_on_tap_offset1024)
      show "tap_offset1024 bd t + 512 \<noteq> tap_offset1024 bd u"
        if "t \<in> set (threads bd)" "fst t < 512" "u \<in> set (threads bd)" "fst u < 512" for t u
        using that by (rule tap_offset1024_shift) (simp add: True)
      show "(tx, ty) \<in> set (threads bd)" by (rule t)
      show "fst (tx, ty) < 512" using tx by simp
      show "2 * 512 \<le> dim_x bd" using True by simp
    qed
    moreover have "dim_x bd div 512 = 2" using True by simp
    ultimately show "total_sum (fold ?f (threads bd) ?s0) (tx, ty)
               = strided_sum d (ty * dim_x bd + tx) 512 (dim_x bd div 512)
             \<and> data (fold ?f (threads bd) ?s0) (ty * dim_x bd + tx)
               = strided_sum d (ty * dim_x bd + tx) 512 (dim_x bd div 512)"
      by (simp add: o strided_sum_two)
  qed
next
  case False
  with N have le: "dim_x bd \<le> 512" and pos: "0 < dim_x bd" by auto
  then have m: "min (dim_x bd) 512 = dim_x bd" by simp
  have st: "reduce_step 512 bd (tap_offset1024 bd) t s = s" for t s
    using False N by (auto simp: reduce_step_def)
  have 1: "(\<lambda>t s. reduce_step 512 bd (tap_offset1024 bd) t (reduce_init (tap_offset1024 bd) t s))
             = reduce_init (tap_offset1024 bd)"
    by (intro ext) (simp add: st)
  show ?thesis
    unfolding m 1 reduced_to_def
    using pos
    by (simp add: fold_reduce_init_total fold_reduce_init_data set_threads strided_sum_def
          tap_offset1024_def)
qed

lemma step_phase_reduced_to:
  assumes N: "dim_x bd \<in> {32, 64, 128, 256, 512, 1024}" and h: "h \<in> {256, 128, 64}"
      and inv: "reduced_to (min (dim_x bd) (2 * h)) d bd s"
  shows "reduced_to (min (dim_x bd) h) d bd (fold (reduce_step h bd (tap_offset1024 bd)) (threads bd) s)"
proof (cases "2 * h \<le> dim_x bd")
  case True
  then have m: "min (dim_x bd) (2 * h) = 2 * h" "min (dim_x bd) h = h" by simp_all
  have dv: "2 * h dvd dim_x bd" using N h True by auto
  have pos: "0 < h" "0 < dim_x bd" using N h by auto
  show ?thesis
    unfolding m(2) using inv unfolding m(1)
    by (rule reduce_step_reduced_to[OF pos(1) dv pos(2)])
next
  case False
  with N h have le: "dim_x bd \<le> h" by auto
  then have m: "min (dim_x bd) (2 * h) = dim_x bd" "min (dim_x bd) h = dim_x bd" by simp_all
  have "reduce_step h bd (tap_offset1024 bd) t s = s" for t s
    using False by (simp add: reduce_step_def)
  then have "fold (reduce_step h bd (tap_offset1024 bd)) (threads bd) s = s" by (rule fold_const)
  with inv show ?thesis unfolding m by simp
qed

lemma fetch_phase_total:
  assumes N: "dim_x bd \<in> {32, 64, 128, 256, 512, 1024}"
      and inv: "reduced_to (min (dim_x bd) 64) d bd s"
      and ty: "ty < dim_y bd" and tx: "tx < 32"
  shows "total_sum (fold (reduce_fetch bd (tap_offset1024 bd)) (threads bd) s) (tx, ty)
           = strided_sum d (ty * dim_x bd + tx) 32 (dim_x bd div 32)"
proof (cases "dim_x bd = 32")
  case True
  then have m: "min (dim_x bd) 64 = 32" by simp
  from inv[unfolded m reduced_to_def, rule_format, OF ty tx]
  show ?thesis using True by (simp add: fold_reduce_fetch_total distinct_threads)
next
  case False
  with N have ge: "64 \<le> dim_x bd" and dv: "64 dvd dim_x bd" by auto
  then have m: "min (dim_x bd) 64 = 64" by simp
  note i = inv[unfolded m reduced_to_def, rule_format, OF ty]
  have t: "(tx, ty) \<in> set (threads bd)" using ty tx ge by (simp add: set_threads)
  have a: "total_sum s (tx, ty) = strided_sum d (ty * dim_x bd + tx) (2 * 32) (dim_x bd div 64)"
    using i[of tx] tx by simp
  have "data s (ty * dim_x bd + (tx + 32)) = strided_sum d (ty * dim_x bd + (tx + 32)) (2 * 32) (dim_x bd div 64)"
    using i[of "tx + 32"] tx by simp
  then have b: "data s (ty * dim_x bd + tx + 32) = strided_sum d (ty * dim_x bd + tx + 32) (2 * 32) (dim_x bd div 64)"
    by (simp only: add.assoc)
  from dv obtain k where k: "dim_x bd = 64 * k" by (auto simp: dvd_def)
  have n: "dim_x bd div 32 = 2 * (dim_x bd div 64)" by (simp add: k)
  have "total_sum (fold (reduce_fetch bd (tap_offset1024 bd)) (threads bd) s) (tx, ty)
          = total_sum s (tx, ty) + data s (ty * dim_x bd + tx + 32)"
    using t tx ge by (simp add: fold_reduce_fetch_total distinct_threads tap_offset1024_def)
  also have "\<dots> = strided_sum d (ty * dim_x bd + tx) 32 (dim_x bd div 32)"
    unfolding a b n by (rule strided_sum_halve) simp
  finally show ?thesis .
qed

text \<open>
  \<open>parallel_reduce\<close> on rows of 32, 64, ..., 1024 entries: thread 0 of every row returns the
  sum of the row.
\<close>

theorem parallel_reduce_row_sum:
  assumes N: "dim_x bd \<in> {32, 64, 128, 256, 512, 1024}" and ty: "ty < dim_y bd"
  shows "parallel_reduce bd (tap_offset1024 bd) d (0, ty) = Some (\<Sum>i<dim_x bd. d (ty * dim_x bd + i))"
proof -
  let ?off = "tap_offset1024 bd"
  let ?s0 = "\<lparr>data = d, total_sum = (\<lambda>t. 0)\<rparr>"
  let ?s1 = "fold (\<lambda>t s. reduce_step 512 bd ?off t (reduce_init ?off t s)) (threads bd) ?s0"
  let ?s2 = "fold (reduce_step 256 bd ?off) (threads bd) ?s1"
  let ?s3 = "fold (reduce_step 128 bd ?off) (threads bd) ?s2"
  let ?s4 = "fold (reduce_step 64 bd ?off) (threads bd) ?s3"
  let ?s5 = "fold (reduce_fetch bd ?off) (threads bd) ?s4"
  have 1: "reduced_to (min (dim_x bd) (2 * 256)) d bd ?s1"
    using init_phase_reduced_to[OF N, of d] by simp
  have 2: "reduced_to (min (dim_x bd) (2 * 128)) d bd ?s2"
    using step_phase_reduced_to[OF N _ 1] by simp
  have 3: "reduced_to (min (dim_x bd) (2 * 64)) d bd ?s3"
    using step_phase_reduced_to[OF N _ 2] by simp
  have 4: "reduced_to (min (dim_x bd) 64) d bd ?s4"
    using step_phase_reduced_to[OF N _ 3] by simp
  have 5: "total_sum ?s5 (tx, ty) = strided_sum d (ty * dim_x bd + tx) 32 (dim_x bd div 32)"
    if "tx < 32" for tx
    by (rule fetch_phase_total[OF N 4 ty that])
  have dv: "32 dvd dim_x bd" "0 < dim_x bd" using N by auto
  then obtain k where k: "dim_x bd = 32 * k" by (auto simp: dvd_def)
  have "shuffle_loop bd (warpSize div 2) (\<lambda>t. Some (total_sum ?s5 t)) (0, ty)
          = Some (\<Sum>tx<32. strided_sum d (ty * dim_x bd + tx) 32 (dim_x bd div 32))"
    by (rule shuffle_loop_row_sum[OF dv ty]) (simp add: 5)
  also have "(\<Sum>tx<32. strided_sum d (ty * dim_x bd + tx) 32 (dim_x bd div 32))
               = (\<Sum>i<32 * (dim_x bd div 32). d (ty * dim_x bd + i))"
    by (rule sum_strided_sum)
  also have "32 * (dim_x bd div 32) = dim_x bd" using dv(1) by simp
  finally show ?thesis
    by (simp add: parallel_reduce_def Let_def)
qed


section \<open>The small kernel at 32 taps or more\<close>

text \<open>
  What \<open>decimate1024\<close> computes when a filter has 32, 64, ..., 1024 taps, for every frequency
  \<open>f\<close>, antenna \<open>a\<close> and output sample \<open>k\<close>: the sum over the taps of sample times tap, a
  sample past the end of its antenna counting as zero. The index arithmetic of the kernel is
  in \<open>uint32_t\<close>; the sizes are taken small enough for it not to wrap around.
\<close>

theorem decimate1024_output_from_32_taps:
  assumes taps: "unat num_taps_per_filter \<in> {32, 64, 128, 256, 512, 1024}"
      and dm: "unat dm_rate dvd unat samples_per_antenna" "dm_rate \<noteq> 0"
      and sz: "unat num_antennas * unat samples_per_antenna + unat num_taps_per_filter \<le> 2 ^ 32"
              "unat num_freqs * (unat samples_per_antenna div unat dm_rate) * unat num_antennas < 2 ^ 32"
      and idx: "f < unat num_freqs" "a < unat num_antennas"
               "k < unat samples_per_antenna div unat dm_rate"
  shows "\<exists>l. decimate1024_wrapper original_samples_d decimated_samples_d filter_taps_d dm_rate
                samples_per_antenna num_taps_per_filter num_freqs num_antennas = Some l
           \<and> run_kernel l shared0 original_samples decimated_samples filter_taps
                 (f * (unat samples_per_antenna div unat dm_rate) * unat num_antennas
                    + a * (unat samples_per_antenna div unat dm_rate) + k)
               = Some (\<Sum>t<unat num_taps_per_filter.
                         (if unat samples_per_antenna \<le> k * unat dm_rate + t then 0
                          else original_samples (a * unat samples_per_antenna + k * unat dm_rate + t))
                         * filter_taps (f * unat num_taps_per_filter + t))"
proof -
  let ?N = "unat num_taps_per_filter"
  let ?S = "unat samples_per_antenna"
  let ?D = "unat dm_rate"
  let ?gd = "\<lparr>dim_x = unat (samples_per_antenna div dm_rate), dim_y = unat num_antennas, dim_z = 1\<rparr>"
  let ?bd = "\<lparr>dim_x = ?N, dim_y = unat num_freqs, dim_z = 1\<rparr>"
  let ?fp = "fold (store_product original_samples filter_taps dm_rate samples_per_antenna ?bd (k, a))
               (threads ?bd) (shared0 (k, a))"
  have g: "create_grid samples_per_antenna dm_rate num_antennas = Some ?gd"
    using dm(2) by (simp add: create_grid_def)
  have b: "create_block num_taps_per_filter num_freqs = ?bd" by (simp add: create_block_def)
  have gx: "dim_x ?gd = ?S div ?D" by (simp add: unat_div)
  have D0: "0 < ?D" using dm(2) by (simp add: unat_gt_0)
  have kD: "k * ?D < ?S"
  proof -
    have "Suc k \<le> ?S div ?D" using idx(3) by simp
    then have "Suc k * ?D \<le> ?S div ?D * ?D" by (rule mult_le_mono1)
    also have "\<dots> = ?S" using dm(1) by simp
    finally show ?thesis using D0 by simp
  qed
  have aS: "a * ?S + ?S \<le> unat num_antennas * ?S"
  proof -
    have "Suc a * ?S \<le> unat num_antennas * ?S" using idx(2) by (intro mult_le_mono1) simp
    then show ?thesis by simp
  qed
  have S32: "?S \<le> unat num_antennas * ?S"
  proof -
    have "?S \<le> a * ?S + ?S" by simp
    also note aS
    finally show ?thesis .
  qed
  have N0: "0 < ?N" "?N \<le> 1024" using taps by auto
  have c: "decimate1024 ?gd ?bd shared0 original_samples decimated_samples filter_taps dm_rate
             samples_per_antenna (f * dim_x ?gd * dim_y ?gd + a * dim_x ?gd + k)
           = parallel_reduce ?bd (tap_offset1024 ?bd) ?fp (0, f)"
  proof (rule decimate1024_cell)
    show "dim_x ?gd = ?S div ?D" by (rule gx)
    show "?D dvd ?S" by (rule dm(1))
    have "unat num_antennas * ?S < unat num_antennas * ?S + ?N" using N0 by simp
    also note sz(1)
    finally show "dim_y ?gd * ?S < 2 ^ 32" by simp
    show "dim_y ?bd * dim_x ?gd * dim_y ?gd < 2 ^ 32" using sz(2) by (simp add: unat_div)
    show "k < dim_x ?gd" using idx(3) by (simp add: unat_div)
    show "a < dim_y ?gd" using idx(2) by simp
    show "f < dim_y ?bd" using idx(1) by simp
    show "0 < dim_x ?bd" using N0 by simp
  qed
  have r: "parallel_reduce ?bd (tap_offset1024 ?bd) ?fp (0, f)
             = Some (\<Sum>i<dim_x ?bd. ?fp (f * dim_x ?bd + i))"
    by (rule parallel_reduce_row_sum) (use taps idx(1) in simp_all)
  have cell: "?fp (f * ?N + i)
                = (if ?S \<le> k * ?D + i then 0
                   else original_samples (a * ?S + k * ?D + i)) * filter_taps (f * ?N + i)"
    if i: "i < ?N" for i
  proof -
    have t: "(i, f) \<in> set (threads ?bd)" using i idx(1) by (simp add: set_threads)
    have o: "tap_offset1024 ?bd (i, f) = f * ?N + i" by (simp add: tap_offset1024_def)
    have l: "fst (load_sample original_samples dm_rate samples_per_antenna (k, a) (i, f))
               = (if ?S \<le> fst (k, a) * ?D + fst (i, f) then 0
                  else original_samples (snd (k, a) * ?S + fst (k, a) * ?D + fst (i, f)))"
    proof (rule load_sample_value)
      have u: "unat w < 2 ^ 32" for w :: u32 using unsigned_less[of w, where 'a = nat] by simp
      show "fst (k, a) < 2 ^ 32" using idx(3) u[of "samples_per_antenna div dm_rate"]
        by (simp add: unat_div)
      show "snd (k, a) < 2 ^ 32" using idx(2) u[of num_antennas] by simp
      have "k * ?D + i < ?S + ?N" using kD i by (rule add_less_mono)
      also have "\<dots> \<le> unat num_antennas * ?S + ?N" using S32 by (rule add_le_mono1)
      also note sz(1)
      finally show "fst (k, a) * ?D + fst (i, f) < 2 ^ 32" by simp
      have "a * ?S + ?S \<le> unat num_antennas * ?S + ?N" using aS by (rule trans_le_add1)
      also note sz(1)
      finally show "snd (k, a) * ?S + ?S \<le> 2 ^ 32" by simp
    qed
    from store_products_cell[OF t, of original_samples filter_taps dm_rate samples_per_antenna
           "(k, a)" "shared0 (k, a)"]
    show ?thesis unfolding o l by simp
  qed
  have sm: "(\<Sum>i<?N. ?fp (f * ?N + i))
              = (\<Sum>i<?N. (if ?S \<le> k * ?D + i then 0
                             else original_samples (a * ?S + k * ?D + i)) * filter_taps (f * ?N + i))"
    by (rule sum.cong) (simp_all only: cell lessThan_iff)
  have ix: "f * dim_x ?gd * dim_y ?gd + a * dim_x ?gd + k
              = f * (?S div ?D) * unat num_antennas + a * (?S div ?D) + k"
    by (simp add: unat_div)
  have dx: "dim_x ?bd = ?N" by simp
  have "decimate1024 ?gd ?bd shared0 original_samples decimated_samples filter_taps dm_rate
             samples_per_antenna (f * (?S div ?D) * unat num_antennas + a * (?S div ?D) + k)
          = Some (\<Sum>i<?N. (if ?S \<le> k * ?D + i then 0
                             else original_samples (a * ?S + k * ?D + i)) * filter_taps (f * ?N + i))"
    using c unfolding r ix dx sm .
  then show ?thesis
    by (simp add: decimate1024_wrapper_def run_kernel_def g b)
qed

section \<open>The kernels at rows shorter than a warp\<close>

lemma sum_upper_half: "(\<Sum>j<32. if (j::nat) < 16 then 0 else (1::cuComplex)) = 16"
  by (simp add: eval_nat_numeral)

lemma block16_warp:
  fixes bd defines "bd \<equiv> \<lparr>dim_x = 16, dim_y = 2, dim_z = 1\<rparr>"
  assumes j: "j < 32"
  shows "shfl_active bd (32 * 0 + j)" "thread_of bd (32 * 0 + j) \<in> set (threads bd)"
        "tap_offset1024 bd (thread_of bd (32 * 0 + j)) = j"
  using j by (simp_all add: bd_def shfl_active_def thread_of_def set_threads tap_offset1024_def
                     div_less_iff_less_mult)

lemma block16_thread0: "thread_of \<lparr>dim_x = 16, dim_y = 2, dim_z = 1\<rparr> (32 * 0) = (0, 0)"
  by (simp add: thread_of_def)

text \<open>
  C3 at a row shorter than a warp. With \<open>blockDim = (16, 2)\<close> the two rows of 16 threads
  share one warp. On data that is 0 on row 0 and 1 on row 1, \<open>parallel_reduce\<close> returns 16 in
  thread \<open>(0, 0)\<close>, the sum of both rows, while the 16 entries of its own row sum to 0.
\<close>

theorem parallel_reduce_adds_next_row:
  "parallel_reduce \<lparr>dim_x = 16, dim_y = 2, dim_z = 1\<rparr>
       (tap_offset1024 \<lparr>dim_x = 16, dim_y = 2, dim_z = 1\<rparr>) (\<lambda>i. if i < 16 then 0 else 1) (0, 0) = Some 16
   \<and> (\<Sum>tx<16. (\<lambda>i. if i < 16 then 0 else (1::cuComplex))
         (tap_offset1024 \<lparr>dim_x = 16, dim_y = 2, dim_z = 1\<rparr> (tx, 0))) = 0"
proof
  let ?bd = "\<lparr>dim_x = 16, dim_y = 2, dim_z = 1\<rparr>"
  let ?d = "\<lambda>i::nat. if i < 16 then 0 else (1::cuComplex)"
  let ?regs = "\<lambda>t. Some (if t \<in> set (threads ?bd) then ?d (tap_offset1024 ?bd t) else 0)"
  have "shuffle_loop ?bd (warpSize div 2) ?regs (thread_of ?bd (32 * 0)) = Some (\<Sum>j<32. ?d j)"
    by (rule shuffle_loop_warp_sum) (simp_all only: block16_warp if_True)
  then have "shuffle_loop ?bd (warpSize div 2) ?regs (0, 0) = Some 16"
    by (simp only: block16_thread0 sum_upper_half)
  moreover have "parallel_reduce ?bd (tap_offset1024 ?bd) ?d = shuffle_loop ?bd (warpSize div 2) ?regs"
    by (rule parallel_reduce_lt64) simp
  ultimately show "parallel_reduce ?bd (tap_offset1024 ?bd) ?d (0, 0) = Some 16"
    by (simp only:)
  show "(\<Sum>tx<16. ?d (tap_offset1024 ?bd (tx, 0))) = 0"
    by (simp add: tap_offset1024_def)
qed

text \<open>
  C1 at 16 taps and 2 frequencies (one antenna of 16 samples, \<open>dm_rate = 16\<close>, all samples 1,
  the taps of frequency 0 all 0 and those of frequency 1 all 1): the value \<open>decimate1024\<close>
  writes for frequency 0 at offset \<open>0\<close> is 16, while the sum of \<open>in[t] * tap[0 * 16 + t]\<close> over
  the 16 taps of frequency 0 is 0.
\<close>

theorem decimate1024_16_taps_adds_next_frequency:
  "\<exists>l. decimate1024_wrapper original_samples_d decimated_samples_d filter_taps_d 16 16 16 2 1 = Some l
     \<and> run_kernel l shared0 (\<lambda>i. 1) decimated_samples (\<lambda>i. if i < 16 then 0 else 1)
           (0 * (16 div 16) * 1 + 0 * (16 div 16) + 0) = Some 16
     \<and> (\<Sum>t<16. (\<lambda>i::nat. 1) (0 * 16 + 0 * 16 + t)
                    * (\<lambda>i::nat. if i < 16 then 0 else (1::cuComplex)) (0 * 16 + t)) = 0"
proof -
  let ?bd = "\<lparr>dim_x = 16, dim_y = 2, dim_z = 1\<rparr>"
  let ?gd = "\<lparr>dim_x = 1, dim_y = 1, dim_z = 1\<rparr>"
  let ?taps = "\<lambda>i::nat. if i < 16 then 0 else (1::cuComplex)"
  let ?in = "\<lambda>i::nat. (1::cuComplex)"
  let ?fp = "fold (store_product ?in ?taps 16 16 ?bd (0, 0)) (threads ?bd) (shared0 (0, 0))"
  let ?regs = "\<lambda>t. Some (if t \<in> set (threads ?bd) then ?fp (tap_offset1024 ?bd t) else 0)"
  have g: "create_grid 16 16 1 = Some ?gd" by (simp add: create_grid_def)
  have b: "create_block 16 2 = ?bd" by (simp add: create_block_def)
  have fp: "?fp j = ?taps j" if "j < 32" for j
  proof -
    have "fst (thread_of ?bd (32 * 0 + j)) < 16" by (simp add: thread_of_def)
    then have "fst (load_sample ?in 16 16 (0, 0) (thread_of ?bd (32 * 0 + j))) = 1"
      by (subst load_sample_value) simp_all
    then show ?thesis
      using store_products_cell[OF block16_warp(2)[OF that], of ?in ?taps 16 16 "(0, 0)" "shared0 (0, 0)"]
      by (simp only: block16_warp(3)[OF that]) simp
  qed
  have "shuffle_loop ?bd (warpSize div 2) ?regs (thread_of ?bd (32 * 0)) = Some (\<Sum>j<32. ?taps j)"
    by (rule shuffle_loop_warp_sum) (simp_all only: block16_warp if_True fp)
  then have "shuffle_loop ?bd (warpSize div 2) ?regs (0, 0) = Some 16"
    by (simp only: block16_thread0 sum_upper_half)
  moreover have "parallel_reduce ?bd (tap_offset1024 ?bd) ?fp = shuffle_loop ?bd (warpSize div 2) ?regs"
    by (rule parallel_reduce_lt64) simp
  ultimately have pr: "parallel_reduce ?bd (tap_offset1024 ?bd) ?fp (0, 0) = Some 16"
    by (simp only:)
  have "decimate1024 ?gd ?bd shared0 ?in decimated_samples ?taps 16 16
          (0 * dim_x ?gd * dim_y ?gd + 0 * dim_x ?gd + 0)
        = parallel_reduce ?bd (tap_offset1024 ?bd) ?fp (0, 0)"
    by (rule decimate1024_cell) simp_all
  then have "decimate1024 ?gd ?bd shared0 ?in decimated_samples ?taps 16 16 0 = Some 16"
    unfolding pr by simp
  then show ?thesis
    by (simp add: decimate1024_wrapper_def run_kernel_def g b)
qed

section \<open>The large kernel against the small kernel\<close>

lemma block32_warp:
  fixes bd defines "bd \<equiv> \<lparr>dim_x = 32, dim_y = 2, dim_z = 1\<rparr>"
  assumes j: "j < 32"
  shows "shfl_active bd (32 * 1 + j)" "thread_of bd (32 * 1 + j) = (j, 1)"
        "(j, 1) \<in> set (threads bd)"
  using j by (simp_all add: bd_def shfl_active_def thread_of_def set_threads)

lemma sum_single:
  "(\<Sum>t<64. (if (64::nat) \<le> 0 * 64 + t then 0 else (if 0 * 64 + 0 * 64 + t = 0 then 1 else 0))
               * (if 1 * 64 + t = 64 then 1 else (0::cuComplex))) = 1"
proof -
  have "(\<Sum>t<64. (if (64::nat) \<le> 0 * 64 + t then 0 else (if 0 * 64 + 0 * 64 + t = 0 then 1 else 0))
               * (if 1 * 64 + t = 64 then 1 else (0::cuComplex)))
        = (\<Sum>t<(64::nat). if t = 0 then 1 else 0)"
    by (rule sum.cong) auto
  also have "\<dots> = 1" by (simp add: sum.delta)
  finally show ?thesis .
qed

text \<open>
  C2 at 64 taps and 2 frequencies (one antenna of 64 samples, \<open>dm_rate = 64\<close>, the first sample
  1 and the others 0, the first tap of frequency 1 equal to 1 and all other taps 0): on the same
  input and taps the small kernel writes 1 for frequency 1 and the large kernel writes 0. The
  large kernel addresses the taps of row \<open>threadIdx.y\<close> from \<open>threadIdx.y * blockDim.x\<close> with
  \<open>blockDim.x\<close> half the filter length, so every product it forms here is zero, whatever the
  order in which its threads run.
\<close>

theorem decimate2048_differs_from_decimate1024:
  "\<exists>small large.
      decimate1024_wrapper original_samples_d decimated_samples_d filter_taps_d 64 64 64 2 1 = Some small
    \<and> decimate2048_wrapper original_samples_d decimated_samples_d filter_taps_d 64 64 64 2 1 = Some large
    \<and> run_kernel small shared0 (\<lambda>i. if i = 0 then 1 else 0) decimated_samples
          (\<lambda>i. if i = 64 then 1 else 0) (1 * (64 div 64) * 1 + 0 * (64 div 64) + 0) = Some 1
    \<and> run_kernel large shared0' (\<lambda>i. if i = 0 then 1 else 0) decimated_samples
          (\<lambda>i. if i = 64 then 1 else 0) (1 * (64 div 64) * 1 + 0 * (64 div 64) + 0) = Some 0"
proof -
  let ?bl = "\<lparr>dim_x = 32, dim_y = 2, dim_z = 1\<rparr>"
  let ?gd = "\<lparr>dim_x = 1, dim_y = 1, dim_z = 1\<rparr>"
  let ?in = "\<lambda>i::nat. if i = 0 then 1 else (0::cuComplex)"
  let ?taps = "\<lambda>i::nat. if i = 64 then 1 else (0::cuComplex)"
  have g: "create_grid 64 64 1 = Some ?gd" by (simp add: create_grid_def)
  have bl: "create_block 32 2 = ?bl" by (simp add: create_block_def)
  \<comment> \<open>the small kernel\<close>
  from decimate1024_output_from_32_taps[of 64 64 64 1 2 1 0 0 original_samples_d decimated_samples_d
         filter_taps_d shared0 ?in decimated_samples ?taps]
  obtain small where
    s: "decimate1024_wrapper original_samples_d decimated_samples_d filter_taps_d 64 64 64 2 1 = Some small"
       "run_kernel small shared0 ?in decimated_samples ?taps (1 * (64 div 64) * 1 + 0 * (64 div 64) + 0)
          = Some (\<Sum>t<64. (if (64::nat) \<le> 0 * 64 + t then 0 else ?in (0 * 64 + 0 * 64 + t))
                              * ?taps (1 * 64 + t))"
    by auto
  have small: "run_kernel small shared0 ?in decimated_samples ?taps (1 * (64 div 64) * 1 + 0 * (64 div 64) + 0)
                 = Some 1"
    unfolding s(2) by (simp only: sum_single)
  \<comment> \<open>the large kernel: every product is zero\<close>
  let ?fl = "fold (store_two_products ?in ?taps 64 64 ?bl (0, 0)) (threads ?bl) (shared0' (0, 0))"
  let ?rl = "\<lambda>t. Some (if t \<in> set (threads ?bl) then ?fl (tap_offset2048 ?bl t) else 0)"
  have prod0: "fst (fst (load_two_samples ?in 64 64 (0, 0) t)) * ?taps (tap_offset2048 ?bl t) = 0
           \<and> snd (fst (load_two_samples ?in 64 64 (0, 0) t)) * ?taps (tap_offset2048 ?bl t + 1) = 0"
    if "t \<in> set (threads ?bl)" for t
  proof -
    from that have t: "fst t < 32" "snd t < 2" by (simp_all add: set_threads)
    have "fst (load_two_samples ?in 64 64 (0, 0) t) = (?in (2 * fst t), ?in (2 * fst t + 1))"
      using t by (subst load_two_samples_value) simp_all
    moreover have "tap_offset2048 ?bl t \<noteq> 64" if "fst t = 0"
      using t that by (auto simp: tap_offset2048_def)
    ultimately show ?thesis by (auto simp: tap_offset2048_def)
  qed
  have fl: "?fl (tap_offset2048 ?bl t) = 0" if "t \<in> set (threads ?bl)" for t
    by (rule fold_store_two_products_zero[OF prod0]) (use that in auto)
  have "shuffle_loop ?bl (warpSize div 2) ?rl (thread_of ?bl (32 * 1 + 0)) = Some 0"
  proof (rule shuffle_loop_warp_zero)
    fix j :: nat assume j: "j < 32"
    show "shfl_active ?bl (32 * 1 + j)" by (rule block32_warp(1)[OF j])
    show "?rl (thread_of ?bl (32 * 1 + j)) = Some 0"
      using fl[OF block32_warp(3)[OF j]] block32_warp(3)[OF j]
      by (simp only: block32_warp(2)[OF j] if_True)
  qed simp
  moreover have "thread_of ?bl (32 * 1 + 0) = (0, 1)" by (simp add: thread_of_def)
  moreover have "parallel_reduce ?bl (tap_offset2048 ?bl) ?fl = shuffle_loop ?bl (warpSize div 2) ?rl"
    by (rule parallel_reduce_lt64) simp
  ultimately have pl: "parallel_reduce ?bl (tap_offset2048 ?bl) ?fl (0, 1) = Some 0"
    by (simp only:)
  have "decimate2048 ?gd ?bl shared0' ?in decimated_samples ?taps 64 64
          (1 * dim_x ?gd * dim_y ?gd + 0 * dim_x ?gd + 0)
        = parallel_reduce ?bl (tap_offset2048 ?bl) ?fl (0, 1)"
    by (rule decimate2048_cell) simp_all
  then have large: "decimate2048 ?gd ?bl shared0' ?in decimated_samples ?taps 64 64 1 = Some 0"
    unfolding pl by simp
  show ?thesis
    using s(1) small large
    by (simp add: decimate2048_wrapper_def run_kernel_def g bl)
qed

section \<open>Properties of the host side\<close>

lemmas rt_defs = and_then_def checked_def gpuErrchk_def fail_with_def enqueue_def fresh_address_def
  cudaMalloc_def cudaFree_def cudaHostAlloc_def cudaFreeHost_def cudaStreamCreate_def
  cudaStreamDestroy_def cudaEventCreate_def cudaEventDestroy_def cudaEventRecord_def
  cudaMemcpyAsync_def cudaStreamAddCallback_def cudaEventElapsedTime_def cudaPeekAtLastError_def
  valid_configuration_def cudaLaunch_def cudaEventSynchronize_def socket_send_def
  new_SharedMemoryHandler_def open_shr_mem_def get_shrmem_addr_def remove_shr_mem_def
  delete_SharedMemoryHandler_def

lemmas core_defs = get_gpu_properties_def DSPCore_constructor_def allocate_and_copy_rf_samples_def
  allocate_and_copy_first_stage_filters_def allocate_and_copy_second_stage_filter_def
  allocate_and_copy_third_stage_filter_def allocate_first_stage_output_def
  allocate_second_stage_output_def allocate_third_stage_output_def allocate_and_copy_host_output_def
  clear_device_and_destroy_def stop_timing_def send_timing_def send_ack_def start_decimate_timing_def
  call_decimate_def get_rf_samples_p_def get_first_stage_bp_filters_p_def get_second_stage_filter_p_def
  get_third_stage_filter_p_def get_first_stage_output_p_def get_second_stage_output_p_def
  get_third_stage_output_p_def get_cuda_stream_def call_member_def delete_DSPCore_def
  clear_and_delete_def postprocess_def cuda_postprocessing_callback_def
  initial_memcpy_callback_handler_def initial_memcpy_callback_def exec_op_def stream_step_def
  add_callback_def host_step_def sequence_program_def new_DSPCore_def run_sequence_def
  decimate1024_wrapper_def decimate2048_wrapper_def create_grid_def create_block_def sizeof_cuComplex_def

lemmas ex_defs = example_world_def example_raw_def example_config_def example_oversized_stage_def
  host_only_def host_then_stream_def example_started_def example_acked_def example_allocated_def

subsection \<open>Allocation\<close>

lemma fold_max_ge: "fold max xs (m::nat) \<ge> m"
proof (induction xs arbitrary: m)
  case Nil then show ?case by simp
next
  case (Cons y ys)
  have "m \<le> max y m" by simp
  also have "\<dots> \<le> fold max ys (max y m)" by (rule Cons.IH)
  finally show ?case by simp
qed

lemma fold_max_upper: "x \<in> set xs \<Longrightarrow> x \<le> fold max xs (m::nat)"
proof (induction xs arbitrary: m)
  case Nil then show ?case by simp
next
  case (Cons y ys)
  show ?case
  proof (cases "x \<in> set ys")
    case True then show ?thesis using Cons.IH by simp
  next
    case False
    with Cons.prems have "x = y" by simp
    then have "x \<le> max y m" by simp
    also have "\<dots> \<le> fold max ys (max y m)" by (rule fold_max_ge)
    finally show ?thesis by simp
  qed
qed

lemma fresh_address_new: "fresh_address w \<notin> fst ` set (allocs w)" "fresh_address w \<noteq> 0"
proof -
  show "fresh_address w \<notin> fst ` set (allocs w)"
  proof
    assume "fresh_address w \<in> fst ` set (allocs w)"
    then have "fresh_address w \<in> set (map fst (allocs w))" by simp
    from fold_max_upper[OF this, of 0] show False by (simp add: fresh_address_def)
  qed
  show "fresh_address w \<noteq> 0" by (simp add: fresh_address_def)
qed

lemma cudaMalloc_success:
  assumes "checked (cudaMalloc w n) = Inr (p, w')" "0 < n"
  shows "p = fresh_address w" "allocs w' = (p, n) # allocs w"
  using assms by (auto simp: checked_def and_then_def gpuErrchk_def cudaMalloc_def split: if_splits)


lemma and_then_Inr: "and_then r f = Inr x \<longleftrightarrow> (\<exists>a. r = Inr a \<and> f a = Inr x)"
  by (cases r) (simp_all add: and_then_def)

lemma checked_Inr: "checked r = Inr x \<longleftrightarrow> fst r = cudaSuccess \<and> snd r = x"
  by (auto simp: checked_def and_then_def gpuErrchk_def)

subsection \<open>The accessors of the stage outputs\<close>

text \<open>
  C4. For every instance \<open>get_second_stage_output_p\<close> returns what \<open>get_second_stage_filter_p\<close>
  returns, the member \<open>second_stage_filters_d\<close>, and \<open>get_third_stage_output_p\<close> returns
  \<open>third_stage_filters_d\<close>. When the filter bank is allocated and \<open>allocate_second_stage_output\<close>
  (or \<open>allocate_third_stage_output\<close>) then allocates a buffer of at least one sample, the
  accessor does not return that buffer.
\<close>

theorem stage_output_getters_return_filter_banks:
  "get_second_stage_output_p dp = get_second_stage_filter_p dp
   \<and> get_second_stage_filter_p dp = second_stage_filters_d dp
   \<and> get_third_stage_output_p dp = get_third_stage_filter_p dp
   \<and> get_third_stage_filter_p dp = third_stage_filters_d dp
   \<and> (0 < num \<and> second_stage_filters_d dp \<in> fst ` set (allocs w)
        \<and> allocate_second_stage_output num dp w = Inr (dp', w') \<longrightarrow>
          second_stage_output_d dp' \<in> fst ` set (allocs w')
          \<and> get_second_stage_output_p dp' \<noteq> second_stage_output_d dp')
   \<and> (0 < num \<and> third_stage_filters_d dp \<in> fst ` set (allocs w)
        \<and> allocate_third_stage_output num dp w = Inr (dp'', w'') \<longrightarrow>
          third_stage_output_d dp'' \<in> fst ` set (allocs w'')
          \<and> get_third_stage_output_p dp'' \<noteq> third_stage_output_d dp'')"
proof (intro conjI impI)
  assume a: "0 < num \<and> second_stage_filters_d dp \<in> fst ` set (allocs w)
        \<and> allocate_second_stage_output num dp w = Inr (dp', w')"
  then have n: "0 < unat num * sizeof_cuComplex"
    by (simp add: sizeof_cuComplex_def unat_gt_0 word_greater_zero_iff)
  from a obtain p where p: "checked (cudaMalloc w (unat num * sizeof_cuComplex)) = Inr (p, w')"
    and dp': "dp' = dp\<lparr>second_stage_output_size := unat num * sizeof_cuComplex, second_stage_output_d := p\<rparr>"
    by (auto simp: allocate_second_stage_output_def Let_def and_then_def split: sum.splits)
  from a fresh_address_new(1)[of w] have ne: "second_stage_filters_d dp \<noteq> fresh_address w"
    by metis
  from cudaMalloc_success[OF p n] ne
  show "second_stage_output_d dp' \<in> fst ` set (allocs w')"
    and "get_second_stage_output_p dp' \<noteq> second_stage_output_d dp'"
    by (simp_all add: dp' get_second_stage_output_p_def)
next
  assume a: "0 < num \<and> third_stage_filters_d dp \<in> fst ` set (allocs w)
        \<and> allocate_third_stage_output num dp w = Inr (dp'', w'')"
  then have n: "0 < unat num * sizeof_cuComplex"
    by (simp add: sizeof_cuComplex_def unat_gt_0 word_greater_zero_iff)
  from a obtain p where p: "checked (cudaMalloc w (unat num * sizeof_cuComplex)) = Inr (p, w'')"
    and dp': "dp'' = dp\<lparr>third_stage_output_size := unat num * sizeof_cuComplex, third_stage_output_d := p\<rparr>"
    by (auto simp: allocate_third_stage_output_def Let_def and_then_def split: sum.splits)
  from a fresh_address_new(1)[of w] have ne: "third_stage_filters_d dp \<noteq> fresh_address w"
    by metis
  from cudaMalloc_success[OF p n] ne
  show "third_stage_output_d dp'' \<in> fst ` set (allocs w'')"
    and "get_third_stage_output_p dp'' \<noteq> third_stage_output_d dp''"
    by (simp_all add: dp' get_third_stage_output_p_def)
qed (simp_all add: get_second_stage_output_p_def get_second_stage_filter_p_def
       get_third_stage_output_p_def get_third_stage_filter_p_def)


theorem stage_output_getters_return_filter_banks_witness:
  "0 < (32::u32)
   \<and> second_stage_filters_d (the (objects example_allocated 6)) \<in> fst ` set (allocs example_allocated)
   \<and> third_stage_filters_d (the (objects example_allocated 6)) \<in> fst ` set (allocs example_allocated)
   \<and> \<not> isl (allocate_second_stage_output 32 (the (objects example_allocated 6)) example_allocated)
   \<and> \<not> isl (allocate_third_stage_output 32 (the (objects example_allocated 6)) example_allocated)
   \<and> get_second_stage_output_p
        (fst (projr (allocate_second_stage_output 32 (the (objects example_allocated 6)) example_allocated)))
      \<noteq> second_stage_output_d
        (fst (projr (allocate_second_stage_output 32 (the (objects example_allocated 6)) example_allocated)))
   \<and> get_third_stage_output_p
        (fst (projr (allocate_third_stage_output 32 (the (objects example_allocated 6)) example_allocated)))
      \<noteq> third_stage_output_d
        (fst (projr (allocate_third_stage_output 32 (the (objects example_allocated 6)) example_allocated)))"
proof -
  let ?obj = "the (objects example_allocated 6)"
  let ?r2 = "allocate_second_stage_output 32 ?obj example_allocated"
  let ?r3 = "allocate_third_stage_output 32 ?obj example_allocated"
  have h: "0 < (32::u32)"
    "second_stage_filters_d ?obj \<in> fst ` set (allocs example_allocated)"
    "third_stage_filters_d ?obj \<in> fst ` set (allocs example_allocated)"
    "\<not> isl ?r2" "\<not> isl ?r3"
    by (simp_all add: rt_defs core_defs ex_defs Let_def)
  then have e: "?r2 = Inr (fst (projr ?r2), snd (projr ?r2))" "?r3 = Inr (fst (projr ?r3), snd (projr ?r3))"
    by (simp_all add: sum.expand)
  show ?thesis
    using h e stage_output_getters_return_filter_banks
      [of ?obj 32 example_allocated "fst (projr ?r2)" "snd (projr ?r2)" "fst (projr ?r3)" "snd (projr ?r3)"]
    by blast
qed

subsection \<open>The choice of the kernel\<close>

lemma call_decimate_branches:
  assumes "devices w = p # ps"
  shows "call_decimate original_samples decimated_samples filter_taps dm_rate samples_per_antenna
             num_taps_per_filter num_freqs num_antennas dp w =
           and_then
             (if num_taps_per_filter * num_freqs > word_of_int (2 * maxThreadsPerBlock p) then Inr w
              else case (if num_taps_per_filter * num_freqs > word_of_int (maxThreadsPerBlock p)
                         then decimate2048_wrapper original_samples decimated_samples filter_taps
                                dm_rate samples_per_antenna num_taps_per_filter num_freqs num_antennas
                         else decimate1024_wrapper original_samples decimated_samples filter_taps
                                dm_rate samples_per_antenna num_taps_per_filter num_freqs num_antennas) of
                     None \<Rightarrow> Inl DivisionByZero
                   | Some l \<Rightarrow> Inr (cudaLaunch w l (stream dp)))
             (\<lambda>w. and_then (gpuErrchk (last_error w)) (\<lambda>u. Inr (dp, w)))"
  using assms by (simp add: call_decimate_def get_gpu_properties_def cudaPeekAtLastError_def)

text \<open>
  C6 at 4096 taps for 2 frequencies on a device with \<open>maxThreadsPerBlock = 1024\<close>: the product
  8192 exceeds twice the limit. \<open>call_decimate\<close> returns normally with the object and the state
  of the process as they were: nothing is queued on a stream, no error is left or reported.
\<close>

theorem call_decimate_oversized_is_silent:
  "call_decimate 1 2 3 4 64 4096 2 2 example_raw example_world = Inr (example_raw, example_world)
   \<and> (4096::u32) * 2 > word_of_int (2 * maxThreadsPerBlock (hd (devices example_world)))"
  by (simp add: rt_defs core_defs ex_defs Let_def)

subsection \<open>Teardown\<close>

lemma cudaFree_live_events: "checked (cudaFree w p) = Inr w' \<Longrightarrow> live_events w' = live_events w"
  by (auto simp: checked_Inr cudaFree_def fail_with_def split: if_splits option.splits)

lemma cudaFreeHost_live_events: "checked (cudaFreeHost w p) = Inr w' \<Longrightarrow> live_events w' = live_events w"
  by (auto simp: checked_Inr cudaFreeHost_def fail_with_def split: if_splits)

lemma cudaEventDestroy_live_events:
  "checked (cudaEventDestroy w e) = Inr w' \<Longrightarrow>
     e \<in> set (live_events w) \<and> live_events w' = removeAll e (live_events w)"
  by (auto simp: checked_Inr cudaEventDestroy_def fail_with_def split: if_splits)

lemma cudaStreamDestroy_live_events:
  "checked (cudaStreamDestroy w s) = Inr w' \<Longrightarrow> live_events w' = live_events w"
  by (auto simp: checked_Inr cudaStreamDestroy_def fail_with_def split: if_splits)

lemma remove_shr_mem_live_events: "remove_shr_mem h w = Inr w' \<Longrightarrow> live_events w' = live_events w"
  by (auto simp: remove_shr_mem_def split: option.splits)

lemma delete_SharedMemoryHandler_live_events:
  "delete_SharedMemoryHandler h w = Inr w' \<Longrightarrow> live_events w' = live_events w"
  by (auto simp: delete_SharedMemoryHandler_def split: option.splits)

lemma clear_device_and_destroy_events:
  assumes "clear_device_and_destroy dp w = Inr (dp', w')"
  shows "initial_start dp \<in> set (live_events w)" "initial_start dp \<notin> set (live_events w')" "dp' = dp"
proof -
  from assms obtain w1 w2 w3 w4 w5 w6 w7 w8 w9 w10 w11 w12 w13 where
    s: "checked (cudaFree w (rf_samples_d dp)) = Inr w1"
       "checked (cudaFree w1 (first_stage_bp_filters_d dp)) = Inr w2"
       "checked (cudaFree w2 (second_stage_filters_d dp)) = Inr w3"
       "checked (cudaFree w3 (third_stage_filters_d dp)) = Inr w4"
       "checked (cudaFree w4 (first_stage_output_d dp)) = Inr w5"
       "checked (cudaFree w5 (second_stage_output_d dp)) = Inr w6"
       "checked (cudaFree w6 (third_stage_output_d dp)) = Inr w7"
       "checked (cudaFreeHost w7 (host_output_h dp)) = Inr w8"
       "checked (cudaEventDestroy w8 (initial_start dp)) = Inr w9"
       "checked (cudaEventDestroy w9 (kernel_start dp)) = Inr w10"
       "checked (cudaEventDestroy w10 (stop dp)) = Inr w11"
       "checked (cudaStreamDestroy w11 (stream dp)) = Inr w12"
       "remove_shr_mem (shr_mem dp) w12 = Inr w13"
       "delete_SharedMemoryHandler (shr_mem dp) w13 = Inr w'"
    and d: "dp' = dp"
    unfolding clear_device_and_destroy_def and_then_Inr by auto
  note f = s(1-7)[THEN cudaFree_live_events] s(8)[THEN cudaFreeHost_live_events]
  note e = s(9-11)[THEN cudaEventDestroy_live_events]
  note r = s(12)[THEN cudaStreamDestroy_live_events] s(13)[THEN remove_shr_mem_live_events]
           s(14)[THEN delete_SharedMemoryHandler_live_events]
  show "initial_start dp \<in> set (live_events w)" using f e by simp
  show "initial_start dp \<notin> set (live_events w')" using e r by simp
  show "dp' = dp" by (rule d)
qed

text \<open>
  C10 on the instance of the small sequence, after its host program. The first teardown
  succeeds. The second fails: through the pointer the object is gone, and
  \<open>clear_device_and_destroy\<close> called again with the members of the object stops at its first
  \<open>cudaFree\<close>, on an address that is no longer allocated.
\<close>

theorem second_teardown_counterexample:
  "\<not> isl (clear_and_delete 6 example_allocated)
   \<and> and_then (clear_and_delete 6 example_allocated) (clear_and_delete 6) = Inl DanglingPointer
   \<and> \<not> isl (clear_device_and_destroy (the (objects example_allocated 6)) example_allocated)
   \<and> clear_device_and_destroy (the (objects example_allocated 6))
        (snd (projr (clear_device_and_destroy (the (objects example_allocated 6)) example_allocated)))
       = Inl (Fatal cudaErrorInvalidValue)"
  by (simp add: rt_defs core_defs ex_defs Let_def)

text \<open>
  C10 as the code has it. A second teardown is not a no-op: after a teardown that succeeded,
  \<open>clear_device_and_destroy\<close> followed by \<open>delete\<close> fails on the same pointer, and
  \<open>clear_device_and_destroy\<close> alone fails on the same members.
\<close>

theorem second_teardown_fails:
  "(clear_and_delete dp w = Inr w' \<longrightarrow> clear_and_delete dp w' = Inl DanglingPointer)
   \<and> (clear_device_and_destroy obj w = Inr (obj', w'') \<longrightarrow> isl (clear_device_and_destroy obj' w''))"
proof (intro conjI impI)
  assume "clear_and_delete dp w = Inr w'"
  then have "objects w' dp = None"
    by (auto simp: clear_and_delete_def and_then_Inr delete_DSPCore_def split: option.splits)
  then show "clear_and_delete dp w' = Inl DanglingPointer"
    by (simp add: clear_and_delete_def call_member_def and_then_def)
next
  assume a: "clear_device_and_destroy obj w = Inr (obj', w'')"
  show "isl (clear_device_and_destroy obj' w'')"
  proof (rule ccontr)
    assume "\<not> isl (clear_device_and_destroy obj' w'')"
    then obtain x where "clear_device_and_destroy obj' w'' = Inr x"
      by (cases "clear_device_and_destroy obj' w''") auto
    then have "clear_device_and_destroy obj w'' = Inr (fst x, snd x)"
      using clear_device_and_destroy_events(3)[OF a] by simp
    from clear_device_and_destroy_events(1)[OF this] clear_device_and_destroy_events(2)[OF a]
    show False by simp
  qed
qed

theorem second_teardown_fails_witness:
  "\<not> isl (clear_and_delete 6 example_allocated)
   \<and> clear_and_delete 6 (projr (clear_and_delete 6 example_allocated)) = Inl DanglingPointer
   \<and> \<not> isl (clear_device_and_destroy (the (objects example_allocated 6)) example_allocated)
   \<and> isl (clear_device_and_destroy
            (fst (projr (clear_device_and_destroy (the (objects example_allocated 6)) example_allocated)))
            (snd (projr (clear_device_and_destroy (the (objects example_allocated 6)) example_allocated))))"
proof -
  let ?obj = "the (objects example_allocated 6)"
  let ?r = "clear_and_delete 6 example_allocated"
  let ?q = "clear_device_and_destroy ?obj example_allocated"
  have h: "\<not> isl ?r" "\<not> isl ?q" by (simp_all add: rt_defs core_defs ex_defs Let_def)
  then have e: "?r = Inr (projr ?r)" "?q = Inr (fst (projr ?q), snd (projr ?q))"
    by (simp_all add: sum.expand)
  show ?thesis
    using h e second_teardown_fails[of 6 example_allocated "projr ?r" ?obj
                "fst (projr ?q)" "snd (projr ?q)"]
    by simp
qed

subsection \<open>What a member function leaves unchanged\<close>

lemma same_instance_refl [simp]: "same_instance a a"
  by (simp add: same_instance_def)

lemma member_effect_allocate_and_copy_rf_samples:
  "allocate_and_copy_rf_samples n obj w = Inr (obj', w') \<Longrightarrow> member_effect k obj w obj' w'"
  unfolding allocate_and_copy_rf_samples_def member_effect_def Let_def
  by (auto simp: and_then_Inr checked_Inr cudaMalloc_def cudaMemcpyAsync_def enqueue_def fail_with_def
        same_instance_def device_work_def split: if_splits)

lemma member_effect_allocate_and_copy_first_stage_filters:
  "allocate_and_copy_first_stage_filters t n obj w = Inr (obj', w') \<Longrightarrow> member_effect k obj w obj' w'"
  unfolding allocate_and_copy_first_stage_filters_def member_effect_def Let_def
  by (auto simp: and_then_Inr checked_Inr cudaMalloc_def cudaMemcpyAsync_def enqueue_def fail_with_def
        same_instance_def device_work_def split: if_splits)

lemma member_effect_allocate_and_copy_second_stage_filter:
  "allocate_and_copy_second_stage_filter t n obj w = Inr (obj', w') \<Longrightarrow> member_effect k obj w obj' w'"
  unfolding allocate_and_copy_second_stage_filter_def member_effect_def Let_def
  by (auto simp: and_then_Inr checked_Inr cudaMalloc_def cudaMemcpyAsync_def enqueue_def fail_with_def
        same_instance_def device_work_def split: if_splits)

lemma member_effect_allocate_and_copy_third_stage_filter:
  "allocate_and_copy_third_stage_filter t n obj w = Inr (obj', w') \<Longrightarrow> member_effect k obj w obj' w'"
  unfolding allocate_and_copy_third_stage_filter_def member_effect_def Let_def
  by (auto simp: and_then_Inr checked_Inr cudaMalloc_def cudaMemcpyAsync_def enqueue_def fail_with_def
        same_instance_def device_work_def split: if_splits)

lemma member_effect_allocate_first_stage_output:
  "allocate_first_stage_output n obj w = Inr (obj', w') \<Longrightarrow> member_effect k obj w obj' w'"
  unfolding allocate_first_stage_output_def member_effect_def Let_def
  by (auto simp: and_then_Inr checked_Inr cudaMalloc_def fail_with_def
        same_instance_def device_work_def split: if_splits intro: exI[of _ "[]"])

lemma member_effect_allocate_second_stage_output:
  "allocate_second_stage_output n obj w = Inr (obj', w') \<Longrightarrow> member_effect k obj w obj' w'"
  unfolding allocate_second_stage_output_def member_effect_def Let_def
  by (auto simp: and_then_Inr checked_Inr cudaMalloc_def fail_with_def
        same_instance_def device_work_def split: if_splits intro: exI[of _ "[]"])

lemma member_effect_allocate_third_stage_output:
  "allocate_third_stage_output n obj w = Inr (obj', w') \<Longrightarrow> member_effect k obj w obj' w'"
  unfolding allocate_third_stage_output_def member_effect_def Let_def
  by (auto simp: and_then_Inr checked_Inr cudaMalloc_def fail_with_def
        same_instance_def device_work_def split: if_splits intro: exI[of _ "[]"])

lemma member_effect_allocate_and_copy_host_output:
  "allocate_and_copy_host_output n obj w = Inr (obj', w') \<Longrightarrow> member_effect k obj w obj' w'"
  unfolding allocate_and_copy_host_output_def member_effect_def Let_def
  by (auto simp: and_then_Inr checked_Inr cudaHostAlloc_def cudaMemcpyAsync_def enqueue_def fail_with_def
        same_instance_def device_work_def split: if_splits)

lemma member_effect_call_decimate:
  assumes "call_decimate a b t d n ntaps nf na obj w = Inr (obj', w')"
  shows "member_effect k obj w obj' w'"
proof -
  have L: "trace (cudaLaunch w l s) = trace w \<and> objects (cudaLaunch w l s) = objects w
        \<and> (queue (cudaLaunch w l s) = queue w
            \<or> queue (cudaLaunch w l s) = (queue w)(s := queue w s @ [OpKernel l]))" for l s
    by (simp add: cudaLaunch_def enqueue_def fail_with_def)
  obtain p ps where d: "devices w = p # ps"
    using assms by (cases "devices w") (auto simp: call_decimate_def get_gpu_properties_def)
  have e: "(queue w)(stream obj := queue w (stream obj) @ []) = queue w" by simp
  have k: "\<forall>op\<in>set [OpKernel l]. device_work k op" for l by (simp add: device_work_def)
  have n: "\<forall>op\<in>set ([]::stream_op list). device_work k op" by simp
  have M: "member_effect k obj w obj (cudaLaunch w l (stream obj))" for l
    unfolding member_effect_def using L[of l "stream obj"] e k n
    by (metis same_instance_refl)
  have M0: "member_effect k obj w obj w"
    unfolding member_effect_def using e n by (metis same_instance_refl)
  from assms show ?thesis
    unfolding call_decimate_branches[OF d] and_then_Inr
    using M M0
    by (auto split: if_splits option.splits)
qed


subsection \<open>What a step of the host program does\<close>

lemma same_instance_trans: "same_instance a b \<Longrightarrow> same_instance b c \<Longrightarrow> same_instance a c"
  by (simp add: same_instance_def)

lemma call_member_effect:
  assumes f: "\<And>obj w obj' w'. f obj w = Inr (obj', w') \<Longrightarrow> member_effect k obj w obj' w'"
      and c: "call_member dp f w = Inr w'" and o: "objects w dp = Some obj"
  shows "\<exists>ext. host_effect dp obj w w' ext \<and> (\<forall>op\<in>set ext. device_work k op)"
proof -
  from c o obtain obj' w1 where r: "f obj w = Inr (obj', w1)"
      and w': "w' = w1\<lparr>objects := (objects w1)(dp \<mapsto> obj')\<rparr>"
    by (auto simp: call_member_def and_then_Inr)
  from f[OF r] obtain ext where
    m: "same_instance obj obj'" "trace w1 = trace w"
       "queue w1 = (queue w)(stream obj := queue w (stream obj) @ ext)"
       "\<forall>op\<in>set ext. device_work k op"
    by (auto simp: member_effect_def)
  have "host_effect dp obj w w' ext"
    using m w' by (simp add: host_effect_def)
  with m(4) show ?thesis by blast
qed

lemma host_effect_trans:
  assumes "host_effect dp obj w w1 e1" "objects w1 dp = Some obj1" "host_effect dp obj1 w1 w2 e2"
  shows "host_effect dp obj w w2 (e1 @ e2)"
  using assms by (auto simp: host_effect_def same_instance_def)

lemma host_effect_object:
  "host_effect dp obj w w' ext \<Longrightarrow> \<exists>obj'. objects w' dp = Some obj' \<and> same_instance obj obj'"
  by (auto simp: host_effect_def)

lemma add_callback_effect:
  assumes "add_callback cb dp w = Inr w'" "objects w dp = Some obj"
  shows "host_effect dp obj w w' [OpCallback cb dp]"
  using assms
  by (auto simp: add_callback_def checked_Inr cudaStreamAddCallback_def get_cuda_stream_def
        enqueue_def fail_with_def host_effect_def split: if_splits)

lemma three_members_effect:
  assumes f: "\<And>obj w obj' w'. f obj w = Inr (obj', w') \<Longrightarrow> member_effect k obj w obj' w'"
      and g: "\<And>obj w obj' w'. g obj w = Inr (obj', w') \<Longrightarrow> member_effect k obj w obj' w'"
      and h: "\<And>obj w obj' w'. h obj w = Inr (obj', w') \<Longrightarrow> member_effect k obj w obj' w'"
      and c: "and_then (call_member dp f w) (\<lambda>w. and_then (call_member dp g w) (\<lambda>w. call_member dp h w))
                = Inr w'"
      and o: "objects w dp = Some obj"
  shows "\<exists>ext. host_effect dp obj w w' ext \<and> (\<forall>op\<in>set ext. device_work k op)"
proof -
  from c obtain w1 w2 where s: "call_member dp f w = Inr w1" "call_member dp g w1 = Inr w2"
      "call_member dp h w2 = Inr w'"
    by (auto simp: and_then_Inr)
  from call_member_effect[of f k, OF f s(1) o] obtain e1 where
    1: "host_effect dp obj w w1 e1" "\<forall>op\<in>set e1. device_work k op" by blast
  from host_effect_object[OF 1(1)] obtain obj1 where o1: "objects w1 dp = Some obj1" by blast
  from call_member_effect[of g k, OF g s(2) o1] obtain e2 where
    2: "host_effect dp obj1 w1 w2 e2" "\<forall>op\<in>set e2. device_work k op" by blast
  from host_effect_object[OF 2(1)] obtain obj2 where o2: "objects w2 dp = Some obj2" by blast
  from call_member_effect[of h k, OF h s(3) o2] obtain e3 where
    3: "host_effect dp obj2 w2 w' e3" "\<forall>op\<in>set e3. device_work k op" by blast
  have "host_effect dp obj w w' ((e1 @ e2) @ e3)"
    by (rule host_effect_trans[OF host_effect_trans[OF 1(1) o1 2(1)] o2 3(1)])
  moreover have "\<forall>op\<in>set ((e1 @ e2) @ e3). device_work k op" using 1(2) 2(2) 3(2) by auto
  ultimately show ?thesis by blast
qed

lemma host_step_effect:
  assumes h: "host_step c dp a w = Inr w'" and o: "objects w dp = Some obj"
  shows "\<exists>ext. host_effect dp obj w w' ext
           \<and> (if a = Add_initial_memcpy_callback then ext = [OpCallback Initial_memcpy_callback dp]
              else if a = Add_postprocessing_callback then
                ext = [OpCallback Cuda_postprocessing_callback dp]
              else \<forall>op\<in>set ext. device_work k op)"
proof (cases a)
  case Allocate_and_copy_rf_samples
  with h have "call_member dp (allocate_and_copy_rf_samples (total_samples c)) w = Inr w'"
    by (simp add: host_step_def)
  from call_member_effect[OF member_effect_allocate_and_copy_rf_samples this o]
  show ?thesis using Allocate_and_copy_rf_samples by simp
next
  case Add_initial_memcpy_callback
  with h have "add_callback Initial_memcpy_callback dp w = Inr w'" by (simp add: host_step_def)
  from add_callback_effect[OF this o] show ?thesis using Add_initial_memcpy_callback by simp
next
  case Allocate_and_copy_filters
  with h have "and_then (call_member dp (allocate_and_copy_first_stage_filters
                      (stage_taps (stage1 c)) (stage_total_taps (stage1 c))) w) (\<lambda>w.
          and_then (call_member dp (allocate_and_copy_second_stage_filter
                      (stage_taps (stage2 c)) (stage_total_taps (stage2 c))) w) (\<lambda>w.
            call_member dp (allocate_and_copy_third_stage_filter
                      (stage_taps (stage3 c)) (stage_total_taps (stage3 c))) w)) = Inr w'"
    by (simp add: host_step_def)
  from three_members_effect[OF member_effect_allocate_and_copy_first_stage_filters
        member_effect_allocate_and_copy_second_stage_filter
        member_effect_allocate_and_copy_third_stage_filter this o]
  show ?thesis using Allocate_and_copy_filters by simp
next
  case Allocate_outputs
  with h have "and_then (call_member dp (allocate_first_stage_output (stage_output_samples (stage1 c))) w) (\<lambda>w.
          and_then (call_member dp (allocate_second_stage_output (stage_output_samples (stage2 c))) w) (\<lambda>w.
            call_member dp (allocate_third_stage_output (stage_output_samples (stage3 c))) w)) = Inr w'"
    by (simp add: host_step_def)
  from three_members_effect[OF member_effect_allocate_first_stage_output
        member_effect_allocate_second_stage_output
        member_effect_allocate_third_stage_output this o]
  show ?thesis using Allocate_outputs by simp
next
  case Decimate_stage1
  with h have "call_member dp (\<lambda>obj. call_decimate (get_rf_samples_p obj) (get_first_stage_output_p obj)
              (get_first_stage_bp_filters_p obj) (stage_dm_rate (stage1 c))
              (stage_samples_per_antenna (stage1 c)) (stage_num_taps_per_filter (stage1 c))
              (stage_num_freqs (stage1 c)) (stage_num_antennas (stage1 c)) obj) w = Inr w'"
    by (simp add: host_step_def)
  from call_member_effect[OF member_effect_call_decimate this o]
  show ?thesis using Decimate_stage1 by simp
next
  case Decimate_stage2
  with h have "call_member dp (\<lambda>obj. call_decimate (get_first_stage_output_p obj) (get_second_stage_output_p obj)
              (get_second_stage_filter_p obj) (stage_dm_rate (stage2 c))
              (stage_samples_per_antenna (stage2 c)) (stage_num_taps_per_filter (stage2 c))
              (stage_num_freqs (stage2 c)) (stage_num_antennas (stage2 c)) obj) w = Inr w'"
    by (simp add: host_step_def)
  from call_member_effect[OF member_effect_call_decimate this o]
  show ?thesis using Decimate_stage2 by simp
next
  case Decimate_stage3
  with h have "call_member dp (\<lambda>obj. call_decimate (get_second_stage_output_p obj) (get_third_stage_output_p obj)
              (get_third_stage_filter_p obj) (stage_dm_rate (stage3 c))
              (stage_samples_per_antenna (stage3 c)) (stage_num_taps_per_filter (stage3 c))
              (stage_num_freqs (stage3 c)) (stage_num_antennas (stage3 c)) obj) w = Inr w'"
    by (simp add: host_step_def)
  from call_member_effect[OF member_effect_call_decimate this o]
  show ?thesis using Decimate_stage3 by simp
next
  case Allocate_and_copy_host_output
  with h have "call_member dp (allocate_and_copy_host_output (num_host_samples c)) w = Inr w'"
    by (simp add: host_step_def)
  from call_member_effect[OF member_effect_allocate_and_copy_host_output this o]
  show ?thesis using Allocate_and_copy_host_output by simp
next
  case Add_postprocessing_callback
  with h have "add_callback Cuda_postprocessing_callback dp w = Inr w'" by (simp add: host_step_def)
  from add_callback_effect[OF this o] show ?thesis using Add_postprocessing_callback by simp
qed

lemma host_step_object:
  assumes "host_step c dp a w = Inr w'"
  shows "\<exists>obj. objects w dp = Some obj"
  using assms
  by (cases a) (auto simp: host_step_def call_member_def add_callback_def and_then_def
                  split: option.splits)

lemma host_step_trace:
  assumes "host_step c dp a w = Inr w'"
  shows "trace w' = trace w"
proof -
  from host_step_object[OF assms] obtain obj where o: "objects w dp = Some obj" by blast
  from host_step_effect[OF assms o, of 0] show ?thesis by (auto simp: host_effect_def)
qed


subsection \<open>What a step of the stream does\<close>

lemma exec_op_device_work: "device_work k op \<Longrightarrow> exec_op op w = Inr (exec_device_op op w)"
  by (cases op) (simp_all add: exec_op_def device_work_def)

lemma exec_device_op_effect:
  assumes "device_work k op"
  shows "\<exists>t. trace (exec_device_op op w) = trace w @ t
            \<and> (\<forall>x\<in>set t. \<not> is_release x \<and> x \<noteq> EventRecorded k \<and> x \<noteq> ack_message a sq)"
    and "objects (exec_device_op op w) = objects w"
    and "queue (exec_device_op op w) = queue w"
  using assms by (cases op; simp add: device_work_def ack_message_def)+

lemma exec_device_op_prefix: "prefix (trace w) (trace (exec_device_op op w))"
  by (cases op) simp_all

lemma send_ack_effect:
  "send_ack obj w = Inr (obj, w\<lparr>trace := trace w @ [ack_message (ack_socket obj) (DSPCore.sequence_num obj)]\<rparr>)"
  by (simp add: send_ack_def socket_send_def ack_message_def)

lemma initial_memcpy_callback_handler_effect:
  assumes o: "objects w dp = Some obj"
      and h: "initial_memcpy_callback_handler dp w = Inr w'"
  shows "trace w' = trace w @ [ack_message (ack_socket obj) (DSPCore.sequence_num obj)]"
    and "queue w' = (queue w)(stream obj := queue w (stream obj) @ [OpRecord (kernel_start obj)])"
    and "event_time w' = event_time w"
    and "objects w' = objects w"
proof -
  let ?w1 = "w\<lparr>trace := trace w @ [ack_message (ack_socket obj) (DSPCore.sequence_num obj)]\<rparr>"
  let ?w2 = "?w1\<lparr>objects := (objects ?w1)(dp \<mapsto> obj)\<rparr>"
  have 1: "call_member dp send_ack w = Inr ?w2"
    using o by (simp add: call_member_def send_ack_effect and_then_def)
  have e: "(objects w)(dp \<mapsto> obj) = objects w" using o by (rule map_upd_triv)
  from h have 2: "call_member dp start_decimate_timing ?w2 = Inr w'"
    by (simp add: initial_memcpy_callback_handler_def 1 and_then_def)
  then obtain w3 where 3: "checked (cudaEventRecord ?w2 (kernel_start obj) (stream obj)) = Inr w3"
      and w': "w' = w3\<lparr>objects := (objects w3)(dp \<mapsto> obj)\<rparr>"
    by (auto simp: call_member_def start_decimate_timing_def and_then_Inr)
  from 3 have w3: "w3 = enqueue (stream obj) (OpRecord (kernel_start obj)) ?w2"
    by (auto simp: checked_Inr cudaEventRecord_def split: if_splits)
  show "trace w' = trace w @ [ack_message (ack_socket obj) (DSPCore.sequence_num obj)]"
    by (simp add: w' w3 enqueue_def)
  show "queue w' = (queue w)(stream obj := queue w (stream obj) @ [OpRecord (kernel_start obj)])"
    by (simp add: w' w3 enqueue_def)
  show "event_time w' = event_time w" by (simp add: w' w3 enqueue_def)
  show "objects w' = objects w" by (simp add: w' w3 enqueue_def e)
qed

lemma initial_memcpy_callback_object:
  "initial_memcpy_callback status dp w = Inr w' \<Longrightarrow> status = cudaSuccess \<and> (\<exists>obj. objects w dp = Some obj)
     \<and> initial_memcpy_callback_handler dp w = Inr w'"
  by (auto simp: initial_memcpy_callback_def initial_memcpy_callback_handler_def and_then_Inr gpuErrchk_def
        call_member_def split: option.splits if_splits)

subsection \<open>The trace only grows\<close>

lemma cudaFree_trace: "checked (cudaFree w p) = Inr w' \<Longrightarrow> trace w' = trace w"
  by (auto simp: checked_Inr cudaFree_def fail_with_def split: if_splits option.splits)

lemma cudaFreeHost_trace: "checked (cudaFreeHost w p) = Inr w' \<Longrightarrow> trace w' = trace w"
  by (auto simp: checked_Inr cudaFreeHost_def fail_with_def split: if_splits)

lemma cudaEventDestroy_trace: "checked (cudaEventDestroy w e) = Inr w' \<Longrightarrow> trace w' = trace w"
  by (auto simp: checked_Inr cudaEventDestroy_def fail_with_def split: if_splits)

lemma cudaStreamDestroy_trace: "checked (cudaStreamDestroy w s) = Inr w' \<Longrightarrow> trace w' = trace w"
  by (auto simp: checked_Inr cudaStreamDestroy_def fail_with_def split: if_splits)

lemma cudaEventRecord_trace: "checked (cudaEventRecord w e s) = Inr w' \<Longrightarrow> trace w' = trace w"
  by (auto simp: checked_Inr cudaEventRecord_def enqueue_def fail_with_def split: if_splits)

lemma remove_shr_mem_prefix: "remove_shr_mem h w = Inr w' \<Longrightarrow> prefix (trace w) (trace w')"
  by (auto simp: remove_shr_mem_def split: option.splits)

lemma delete_SharedMemoryHandler_trace: "delete_SharedMemoryHandler h w = Inr w' \<Longrightarrow> trace w' = trace w"
  by (auto simp: delete_SharedMemoryHandler_def split: option.splits)

lemma clear_device_and_destroy_prefix:
  assumes "clear_device_and_destroy dp w = Inr (dp', w')"
  shows "prefix (trace w) (trace w')"
proof -
  from assms obtain w1 w2 w3 w4 w5 w6 w7 w8 w9 w10 w11 w12 w13 where
    s: "checked (cudaFree w (rf_samples_d dp)) = Inr w1"
       "checked (cudaFree w1 (first_stage_bp_filters_d dp)) = Inr w2"
       "checked (cudaFree w2 (second_stage_filters_d dp)) = Inr w3"
       "checked (cudaFree w3 (third_stage_filters_d dp)) = Inr w4"
       "checked (cudaFree w4 (first_stage_output_d dp)) = Inr w5"
       "checked (cudaFree w5 (second_stage_output_d dp)) = Inr w6"
       "checked (cudaFree w6 (third_stage_output_d dp)) = Inr w7"
       "checked (cudaFreeHost w7 (host_output_h dp)) = Inr w8"
       "checked (cudaEventDestroy w8 (initial_start dp)) = Inr w9"
       "checked (cudaEventDestroy w9 (kernel_start dp)) = Inr w10"
       "checked (cudaEventDestroy w10 (stop dp)) = Inr w11"
       "checked (cudaStreamDestroy w11 (stream dp)) = Inr w12"
       "remove_shr_mem (shr_mem dp) w12 = Inr w13"
       "delete_SharedMemoryHandler (shr_mem dp) w13 = Inr w'"
    unfolding clear_device_and_destroy_def and_then_Inr by auto
  note f = s(1-7)[THEN cudaFree_trace] s(8)[THEN cudaFreeHost_trace]
           s(9-11)[THEN cudaEventDestroy_trace] s(12)[THEN cudaStreamDestroy_trace]
  have "trace w12 = trace w" using f by simp
  moreover have "prefix (trace w12) (trace w13)" by (rule remove_shr_mem_prefix[OF s(13)])
  moreover have "trace w' = trace w13" by (rule delete_SharedMemoryHandler_trace[OF s(14)])
  ultimately show ?thesis by simp
qed

lemma run_until_recorded_prefix:
  "run_until_recorded e ops w = Inr (ops', w') \<Longrightarrow> prefix (trace w) (trace w')"
  by (induction e ops w rule: run_until_recorded.induct)
     (auto split: if_splits dest: append_prefixD)

lemma cudaEventSynchronize_prefix:
  assumes "cudaEventSynchronize w e = Inr r" "checked r = Inr w'"
  shows "prefix (trace w) (trace w')"
proof -
  from assms(2) have r: "r = (cudaSuccess, w')" by (cases r) (simp add: checked_Inr)
  show ?thesis
  proof (cases "e \<notin> set (live_events w)")
    case True
    with assms(1) r show ?thesis by (simp add: cudaEventSynchronize_def)
  next
    case False
    show ?thesis
    proof (cases "find (\<lambda>s. OpRecord e \<in> set (queue w s)) (live_streams w)")
      case None
      with assms(1) r False show ?thesis by (simp add: cudaEventSynchronize_def)
    next
      case (Some s)
      with assms(1) r False obtain ops w1 where
        1: "run_until_recorded e (queue w s) w = Inr (ops, w1)" and
        2: "w' = w1\<lparr>queue := (queue w1)(s := ops)\<rparr>"
        by (auto simp: cudaEventSynchronize_def and_then_Inr)
      from run_until_recorded_prefix[OF 1] 2 show ?thesis by simp
    qed
  qed
qed

lemma stop_timing_prefix:
  assumes "stop_timing dp w = Inr (dp', w')"
  shows "prefix (trace w) (trace w')"
proof -
  from assms obtain w1 r where
    1: "checked (cudaEventRecord w (stop dp) (stream dp)) = Inr w1" and
    2: "cudaEventSynchronize w1 (stop dp) = Inr r" and
    3: "checked r = Inr w'"
    unfolding stop_timing_def and_then_Inr Let_def by auto
  from cudaEventRecord_trace[OF 1] cudaEventSynchronize_prefix[OF 2 3] show ?thesis by simp
qed

lemma send_timing_prefix: "send_timing dp w = Inr (dp', w') \<Longrightarrow> prefix (trace w) (trace w')"
  by (auto simp: send_timing_def socket_send_def Let_def)

lemma call_member_prefix:
  assumes f: "\<And>obj w obj' w'. f obj w = Inr (obj', w') \<Longrightarrow> prefix (trace w) (trace w')"
      and c: "call_member dp f w = Inr w'"
  shows "prefix (trace w) (trace w')"
proof -
  from c obtain obj obj' w1 where r: "f obj w = Inr (obj', w1)"
      and w': "w' = w1\<lparr>objects := (objects w1)(dp \<mapsto> obj')\<rparr>"
    by (auto simp: call_member_def and_then_Inr split: option.splits)
  from f[OF r] w' show ?thesis by simp
qed

lemma delete_DSPCore_trace: "delete_DSPCore dp w = Inr w' \<Longrightarrow> trace w' = trace w"
  by (auto simp: delete_DSPCore_def split: option.splits)

lemma postprocess_prefix:
  assumes "postprocess dp w = Inr w'"
  shows "prefix (trace w) (trace w')"
proof -
  from assms obtain w1 w2 w3 where
    s: "call_member dp stop_timing w = Inr w1" "call_member dp send_timing w1 = Inr w2"
       "call_member dp clear_device_and_destroy w2 = Inr w3" "delete_DSPCore dp w3 = Inr w'"
    by (auto simp: postprocess_def clear_and_delete_def and_then_Inr)
  have "prefix (trace w) (trace w1)" by (rule call_member_prefix[OF stop_timing_prefix s(1)])
  also have "prefix (trace w1) (trace w2)" by (rule call_member_prefix[OF send_timing_prefix s(2)])
  also have "prefix (trace w2) (trace w3)"
    by (rule call_member_prefix[OF clear_device_and_destroy_prefix s(3)])
  also have "trace w3 = trace w'" using delete_DSPCore_trace[OF s(4)] by simp
  finally show ?thesis .
qed

lemma exec_op_prefix:
  assumes "exec_op op w = Inr w'"
  shows "prefix (trace w) (trace w')"
proof (cases "\<exists>cb u. op = OpCallback cb u")
  case False
  then have "device_work (Suc (case op of OpRecord e \<Rightarrow> e | _ \<Rightarrow> 0)) op"
    by (cases op) (auto simp: device_work_def)
  from exec_op_device_work[OF this, of w] assms exec_device_op_prefix[of w op]
  show ?thesis by simp
next
  case True
  then obtain cb u where op: "op = OpCallback cb u" by blast
  show ?thesis
  proof (cases cb)
    case Initial_memcpy_callback
    with assms op have c: "initial_memcpy_callback cudaSuccess u w = Inr w'" by (simp add: exec_op_def)
    from initial_memcpy_callback_object[OF c] obtain obj where
      o: "objects w u = Some obj" and h: "initial_memcpy_callback_handler u w = Inr w'" by blast
    from initial_memcpy_callback_handler_effect(1)[OF o h] show ?thesis by simp
  next
    case Cuda_postprocessing_callback
    with assms op have "postprocess u w = Inr w'"
      by (simp add: exec_op_def cuda_postprocessing_callback_def and_then_Inr gpuErrchk_def)
    then show ?thesis by (rule postprocess_prefix)
  qed
qed

lemma stream_step_prefix:
  assumes "stream_step s w = Inr w'"
  shows "prefix (trace w) (trace w')"
proof (cases "queue w s")
  case Nil
  with assms show ?thesis by (simp add: stream_step_def)
next
  case (Cons op ops)
  with assms have "exec_op op (w\<lparr>queue := (queue w)(s := ops)\<rparr>) = Inr w'"
    by (simp add: stream_step_def)
  from exec_op_prefix[OF this] show ?thesis by simp
qed

lemma run_schedule_prefix:
  "run_schedule c dp s sched prog w = Inr (prog', w') \<Longrightarrow> prefix (trace w) (trace w')"
proof (induction c dp s sched prog w rule: run_schedule.induct)
  case (1 c dp s prog w)
  then show ?case by simp
next
  case (2 c dp s sched w)
  then show ?case by simp
next
  case (3 c dp s sched a prog w)
  from 3(2) obtain w1 where h: "host_step c dp a w = Inr w1"
      and r: "run_schedule c dp s sched prog w1 = Inr (prog', w')"
    by (auto simp: and_then_Inr)
  from host_step_trace[OF h] 3(1)[OF r] show ?case by simp
next
  case (4 c dp s sched prog w)
  from 4(2) obtain w1 where h: "stream_step s w = Inr w1"
      and r: "run_schedule c dp s sched prog w1 = Inr (prog', w')"
    by (auto simp: and_then_Inr)
  from stream_step_prefix[OF h] 4(1)[OF r] show ?case by (rule prefix_order.order_trans)
qed


subsection \<open>Nothing is released or timed before the acknowledgement\<close>

lemma ack_pending_host_step:
  assumes p: "ack_pending k dp q (a # prog)"
      and e: "if a = Add_initial_memcpy_callback then ext = [OpCallback Initial_memcpy_callback dp]
              else if a = Add_postprocessing_callback then
                ext = [OpCallback Cuda_postprocessing_callback dp]
              else \<forall>op\<in>set ext. device_work k op"
  shows "ack_pending k dp (q @ ext) prog"
proof -
  from p consider
    (queued) pre post where "q = pre @ OpCallback Initial_memcpy_callback dp # post"
        "\<forall>op\<in>set pre. device_work k op"
  | (ahead) "\<forall>op\<in>set q. device_work k op"
        "Add_postprocessing_callback \<notin> set (takeWhile (\<lambda>a. a \<noteq> Add_initial_memcpy_callback) (a # prog))"
    unfolding ack_pending_def by blast
  then show ?thesis
  proof cases
    case queued
    then have "q @ ext = pre @ OpCallback Initial_memcpy_callback dp # (post @ ext)" by simp
    with queued(2) show ?thesis unfolding ack_pending_def by blast
  next
    case ahead
    show ?thesis
    proof (cases "a = Add_initial_memcpy_callback")
      case True
      with e have "q @ ext = q @ OpCallback Initial_memcpy_callback dp # []" by simp
      with ahead(1) show ?thesis unfolding ack_pending_def by blast
    next
      case False
      with ahead(2) have n: "a \<noteq> Add_postprocessing_callback"
        and t: "Add_postprocessing_callback \<notin> set (takeWhile (\<lambda>a. a \<noteq> Add_initial_memcpy_callback) prog)"
        by auto
      from e False n have "\<forall>op\<in>set ext. device_work k op" by simp
      with ahead(1) t show ?thesis unfolding ack_pending_def by auto
    qed
  qed
qed

lemma ack_pending_head:
  assumes "ack_pending k dp (op # ops) prog"
  shows "op = OpCallback Initial_memcpy_callback dp \<or> (device_work k op \<and> ack_pending k dp ops prog)"
proof -
  from assms consider
    (queued) pre post where "op # ops = pre @ OpCallback Initial_memcpy_callback dp # post"
        "\<forall>op\<in>set pre. device_work k op"
  | (ahead) "\<forall>op\<in>set (op # ops). device_work k op"
        "Add_postprocessing_callback \<notin> set (takeWhile (\<lambda>a. a \<noteq> Add_initial_memcpy_callback) prog)"
    unfolding ack_pending_def by blast
  then show ?thesis
  proof cases
    case queued
    show ?thesis
    proof (cases pre)
      case Nil
      with queued(1) show ?thesis by simp
    next
      case (Cons p pre')
      with queued have "op = p" "ops = pre' @ OpCallback Initial_memcpy_callback dp # post"
        "device_work k p" "\<forall>op\<in>set pre'. device_work k op"
        by simp_all
      then show ?thesis unfolding ack_pending_def by blast
    qed
  next
    case ahead
    then show ?thesis unfolding ack_pending_def by simp
  qed
qed

lemma before_ack_clean_append:
  assumes "\<forall>x\<in>set t. x \<noteq> ack"
  shows "before_ack ack (t @ new) = t @ before_ack ack new"
  using assms by (simp add: before_ack_def takeWhile_append2)

lemma run_schedule_order:
  assumes "run_schedule c dp s sched prog w = Inr (prog', w')"
      and "objects w dp = Some obj" and "stream obj = s"
      and "ack_pending (kernel_start obj) dp (queue w s) prog"
  shows "\<exists>new. trace w' = trace w @ new
           \<and> (\<forall>x\<in>set (before_ack (ack_message (ack_socket obj) (DSPCore.sequence_num obj)) new).
                \<not> is_release x \<and> x \<noteq> EventRecorded (kernel_start obj))"
  using assms
proof (induction c dp s sched prog w arbitrary: obj rule: run_schedule.induct)
  case (1 c dp s prog w)
  then have "trace w' = trace w @ []" by simp
  then show ?case by (metis before_ack_def empty_iff list.set(1) takeWhile.simps(1))
next
  case (2 c dp s sched w)
  from 2(2) have r: "run_schedule c dp s sched [] w = Inr (prog', w')" by simp
  from 2(1)[OF r 2(3) 2(4) 2(5)] show ?case .
next
  case (3 c dp s sched a prog w)
  from 3(2) obtain w1 where h: "host_step c dp a w = Inr w1"
      and r: "run_schedule c dp s sched prog w1 = Inr (prog', w')"
    by (auto simp: and_then_Inr)
  from host_step_effect[OF h 3(3), of "kernel_start obj"] obtain ext where
    e: "host_effect dp obj w w1 ext"
       "if a = Add_initial_memcpy_callback then ext = [OpCallback Initial_memcpy_callback dp]
        else if a = Add_postprocessing_callback then
          ext = [OpCallback Cuda_postprocessing_callback dp]
        else \<forall>op\<in>set ext. device_work (kernel_start obj) op"
    by blast
  from e(1) 3(4) obtain obj1 where o1: "objects w1 dp = Some obj1" and si: "same_instance obj obj1"
      and q: "queue w1 s = queue w s @ ext" and t: "trace w1 = trace w"
    by (auto simp: host_effect_def)
  from si 3(4) have s1: "stream obj1 = s" and k1: "kernel_start obj1 = kernel_start obj"
      and a1: "ack_socket obj1 = ack_socket obj"
      and n1: "DSPCore.sequence_num obj1 = DSPCore.sequence_num obj"
    by (simp_all add: same_instance_def)
  have "ack_pending (kernel_start obj1) dp (queue w1 s) prog"
    unfolding q k1 by (rule ack_pending_host_step[OF 3(5) e(2)])
  from 3(1)[OF r o1 s1 this] show ?case unfolding t k1 a1 n1 .
next
  case (4 c dp s sched prog w)
  let ?k = "kernel_start obj"
  let ?ack = "ack_message (ack_socket obj) (DSPCore.sequence_num obj)"
  from 4(2) obtain w1 where h: "stream_step s w = Inr w1"
      and r: "run_schedule c dp s sched prog w1 = Inr (prog', w')"
    by (auto simp: and_then_Inr)
  show ?case
  proof (cases "queue w s")
    case Nil
    with h have "w1 = w" by (simp add: stream_step_def)
    with 4(1)[OF r] 4(3) 4(4) 4(5) show ?thesis by simp
  next
    case (Cons op ops)
    let ?w0 = "w\<lparr>queue := (queue w)(s := ops)\<rparr>"
    from h Cons have x: "exec_op op ?w0 = Inr w1" by (simp add: stream_step_def)
    have o0: "objects ?w0 dp = Some obj" using 4(3) by simp
    from ack_pending_head[OF 4(5)[unfolded Cons]]
    show ?thesis
    proof
      assume "op = OpCallback Initial_memcpy_callback dp"
      with x have "initial_memcpy_callback cudaSuccess dp ?w0 = Inr w1" by (simp add: exec_op_def)
      then have "initial_memcpy_callback_handler dp ?w0 = Inr w1"
        by (simp add: initial_memcpy_callback_object)
      from initial_memcpy_callback_handler_effect(1)[OF o0 this]
      have t1: "trace w1 = trace w @ [?ack]" by simp
      from run_schedule_prefix[OF r] obtain ext where "trace w' = trace w1 @ ext"
        by (auto simp: prefix_def)
      with t1 have "trace w' = trace w @ (?ack # ext)" by simp
      moreover have "before_ack ?ack (?ack # ext) = []" by (simp add: before_ack_def)
      ultimately show ?thesis by (metis empty_iff list.set(1))
    next
      assume d: "device_work ?k op \<and> ack_pending ?k dp ops prog"
      then have dw: "device_work ?k op" by simp
      have "exec_op op ?w0 = Inr (exec_device_op op ?w0)" by (rule exec_op_device_work[OF dw])
      with x have w1: "w1 = exec_device_op op ?w0" by simp
      from exec_device_op_effect(1)[OF dw, of ?w0 "ack_socket obj" "DSPCore.sequence_num obj"]
        exec_device_op_effect(2,3)[OF dw, of ?w0]
      obtain t where t: "trace w1 = trace w @ t"
          "\<forall>x\<in>set t. \<not> is_release x \<and> x \<noteq> EventRecorded ?k \<and> x \<noteq> ?ack"
        and o1: "objects w1 dp = Some obj" and q1: "queue w1 s = ops"
        unfolding w1 using 4(3) by auto
      have "ack_pending ?k dp (queue w1 s) prog" using d q1 by simp
      from 4(1)[OF r o1 4(4) this] obtain new where
        n: "trace w' = trace w1 @ new"
           "\<forall>x\<in>set (before_ack ?ack new). \<not> is_release x \<and> x \<noteq> EventRecorded ?k"
        by blast
      have "trace w' = trace w @ (t @ new)" using n(1) t(1) by simp
      moreover have "\<forall>x\<in>set (before_ack ?ack (t @ new)). \<not> is_release x \<and> x \<noteq> EventRecorded ?k"
        using t(2) n(2) by (auto simp: before_ack_clean_append)
      ultimately show ?thesis by blast
    qed
  qed
qed


lemma new_DSPCore_effect:
  assumes "new_DSPCore raw a t sq name w = Inr (dp, w1)"
  shows "\<exists>obj wc. DSPCore_constructor raw a t sq name w = Inr (obj, wc)
           \<and> objects w1 dp = Some obj \<and> trace w1 = trace w
           \<and> stream obj = next_handle w \<and> ack_socket obj = a \<and> DSPCore.sequence_num obj = sq
           \<and> queue w1 (stream obj) = queue w (next_handle w) @ [OpRecord (initial_start obj)]
           \<and> initial_start obj \<noteq> kernel_start obj"
  using assms
  unfolding new_DSPCore_def DSPCore_constructor_def Let_def
  by (auto simp: and_then_Inr checked_Inr cudaStreamCreate_def cudaEventCreate_def cudaEventRecord_def
        new_SharedMemoryHandler_def open_shr_mem_def enqueue_def fail_with_def
        split: if_splits option.splits prod.splits)


lemma run_sequence_order:
  assumes q: "queue w (next_handle w) = []"
      and r: "run_sequence raw ack_s timing_s sq_num shr_mem_name c sched w = Inr (prog, w')"
  shows "\<exists>new. trace w' = trace w @ new
           \<and> (\<forall>x\<in>set (before_ack (ack_message ack_s sq_num) new).
                \<not> is_release x
                \<and> x \<noteq> EventRecorded (kernel_start
                       (fst (projr (DSPCore_constructor raw ack_s timing_s sq_num shr_mem_name w)))))"
proof -
  from r obtain dp w1 obj where
    n: "new_DSPCore raw ack_s timing_s sq_num shr_mem_name w = Inr (dp, w1)" and
    o: "objects w1 dp = Some obj" and
    s: "run_schedule c dp (get_cuda_stream obj) sched sequence_program w1 = Inr (prog, w')"
    by (auto simp: run_sequence_def and_then_Inr split: option.splits)
  from new_DSPCore_effect[OF n] o obtain wc where
    e: "DSPCore_constructor raw ack_s timing_s sq_num shr_mem_name w = Inr (obj, wc)"
       "trace w1 = trace w" "stream obj = next_handle w" "ack_socket obj = ack_s"
       "DSPCore.sequence_num obj = sq_num"
       "queue w1 (stream obj) = queue w (next_handle w) @ [OpRecord (initial_start obj)]"
       "initial_start obj \<noteq> kernel_start obj"
    by auto
  have p: "ack_pending (kernel_start obj) dp (queue w1 (stream obj)) sequence_program"
    unfolding ack_pending_def e(6) q using e(7)
    by (simp add: device_work_def sequence_program_def)
  from run_schedule_order[OF s[unfolded get_cuda_stream_def] o refl p]
  show ?thesis unfolding e(1) e(2) e(4) e(5) by simp
qed


subsection \<open>The acknowledgement and the kernel timer\<close>



subsection \<open>The acknowledgement and the release of the slot\<close>



text \<open>
  The same for the kernel timer, in a whole sequence and for every interleaving of the host
  thread and the stream: the \<open>kernel_start\<close> event of the instance is not recorded before
  the acknowledgement has been sent.
\<close>

theorem kernel_start_recorded_only_after_ack:
  assumes "queue w (next_handle w) = []"
      and "run_sequence raw ack_s timing_s sq_num shr_mem_name c sched w = Inr (prog, w')"
  shows "\<not> recorded_before_ack
             (kernel_start (fst (projr (DSPCore_constructor raw ack_s timing_s sq_num shr_mem_name w))))
             (ack_message ack_s sq_num) (drop (length (trace w)) (trace w'))"
proof -
  from run_sequence_order[OF assms] obtain new where
    n: "trace w' = trace w @ new"
       "\<forall>x\<in>set (before_ack (ack_message ack_s sq_num) new).
           x \<noteq> EventRecorded (kernel_start
                   (fst (projr (DSPCore_constructor raw ack_s timing_s sq_num shr_mem_name w))))"
    by blast
  then show ?thesis by (auto simp: recorded_before_ack_def)
qed

subsection \<open>The timing message\<close>

















end
